theory Spec2Isabelle
  imports Main "HOL-Library.Word"
begin

section \<open>The storage core of \<open>circular_buffer<T>\<close>\<close>

text \<open>
  The four data members of \<^verbatim>\<open>circular_buffer<T>\<close> (circular_buffer.h, lines 225-228).
  The raw block \<^verbatim>\<open>T* arr\<close> is a list of slots: \<open>Some v\<close> is a slot holding a
  constructed object of value \<open>v\<close>, \<open>None\<close> is raw memory (never constructed, or
  destroyed). The null pointer is the empty list. \<^verbatim>\<open>size_t sz, cap\<close> and \<^verbatim>\<open>int head\<close>
  are natural numbers: as long as the capacities involved do not exceed \<open>2^31\<close>, \<open>head\<close>
  and every slot number fit the \<^verbatim>\<open>int\<close> the source keeps them in and no \<^verbatim>\<open>size_t\<close> sum
  of the operations wraps. The places where the
  source subtracts say where \<open>nat\<close> and \<^verbatim>\<open>size_t\<close> subtraction could differ. Reading a
  slot that holds no object, or a slot outside the block, has no defined behaviour in
  the source; the model reads \<open>None\<close> in the first case and an unspecified value in the
  second.
\<close>

record 'a circular_buffer =
  head :: nat
  sz :: nat
  cap :: nat
  arr :: "'a option list"

text \<open>\<^verbatim>\<open>circular_buffer() noexcept\<close> (lines 18-23).\<close>

definition circular_buffer_init :: "'a circular_buffer" where
  "circular_buffer_init = \<lparr>head = 0, sz = 0, cap = 0, arr = []\<rparr>"

text \<open>\<^verbatim>\<open>size()\<close>, \<^verbatim>\<open>empty()\<close>, \<^verbatim>\<open>capacity()\<close> (lines 46, 56, 112).\<close>

definition size_cb :: "'a circular_buffer \<Rightarrow> nat" where
  "size_cb b = sz b"

definition empty_cb :: "'a circular_buffer \<Rightarrow> bool" where
  "empty_cb b = (sz b = 0)"

definition capacity :: "'a circular_buffer \<Rightarrow> nat" where
  "capacity b = cap b"

text \<open>
  \<^verbatim>\<open>get_arr_pos(index)\<close> (lines 324-326) and \<^verbatim>\<open>operator[](index)\<close> (lines 49-51) on
  natural numbers. This is the value the source computes if \<open>0 < cap \<le> 2^31\<close> and
  \<open>head + index < 2^64\<close>: the \<^verbatim>\<open>size_t\<close> sum does not wrap and the remainder fits the
  \<^verbatim>\<open>int\<close> that \<^verbatim>\<open>get_arr_pos\<close> returns (lemma \<open>get_arr_pos_exact\<close> below compares it with
  the machine-level \<open>it_slot\<close>, which wraps the sum, converts the result to 32 bits and
  has no value for \<open>cap = 0\<close>). With \<open>cap = 0\<close> the source divides by zero; HOL's \<open>mod\<close>
  returns the dividend there, and no statement below relies on that value.
\<close>

definition get_arr_pos :: "'a circular_buffer \<Rightarrow> nat \<Rightarrow> nat" where
  "get_arr_pos b index = (head b + index) mod cap b"

definition at_cb :: "'a circular_buffer \<Rightarrow> nat \<Rightarrow> 'a option" where
  "at_cb b index = arr b ! ((head b + index) mod cap b)"

text \<open>
  \<^verbatim>\<open>tail()\<close> (lines 230-235). For \<open>sz > 0\<close> the sum \<open>head + sz + cap\<close> is at least 1, so
  the subtraction is the same on \<open>nat\<close> and on \<^verbatim>\<open>size_t\<close>.
\<close>

definition tail :: "'a circular_buffer \<Rightarrow> nat" where
  "tail b = (if sz b = 0 then head b else (head b + sz b + cap b - 1) mod cap b)"

text \<open>
  Inside the core an iterator \<^verbatim>\<open>node(this, k)\<close> is its logical index \<open>k\<close>;
  \<^verbatim>\<open>begin()\<close> is index 0 and \<^verbatim>\<open>end()\<close> is index \<open>sz\<close> (lines 116-127). Dereferencing
  reads slot \<open>get_arr_pos b k\<close> of the current state (line 348).
\<close>

definition begin_cb :: "'a circular_buffer \<Rightarrow> nat" where
  "begin_cb b = 0"

definition end_cb :: "'a circular_buffer \<Rightarrow> nat" where
  "end_cb b = sz b"

definition deref :: "'a circular_buffer \<Rightarrow> nat \<Rightarrow> 'a option" where
  "deref b k = arr b ! get_arr_pos b k"

text \<open>Running the destructor on the object an iterator designates: \<^verbatim>\<open>it->~T()\<close>.\<close>

definition destroy_at :: "nat \<Rightarrow> 'a circular_buffer \<Rightarrow> 'a circular_buffer" where
  "destroy_at k b = b\<lparr>arr := (arr b)[get_arr_pos b k := None]\<rparr>"

text \<open>
  \<^verbatim>\<open>clear()\<close> (lines 59-65): the loop visits the iterators from \<^verbatim>\<open>begin()\<close> to
  \<^verbatim>\<open>end()\<close>; neither \<open>head\<close> nor \<open>sz\<close> changes before the loop is over.
\<close>

definition clear :: "'a circular_buffer \<Rightarrow> 'a circular_buffer" where
  "clear b = (fold destroy_at [begin_cb b ..< end_cb b] b)\<lparr>sz := 0, head := 0\<rparr>"

text \<open>
  \<^verbatim>\<open>copyToArray(dest)\<close> (lines 254-291) for an element type whose copy constructor
  does not throw (the throwing case is modelled in its own section below). Copying slot
  \<open>i\<close> of the old block into slot \<open>k\<close> of \<open>dest\<close> is \<open>dest[k := arr b ! i]\<close>. A
  write past the end of \<open>dest\<close> would overrun the block in the source and is dropped by
  the list update; there is none when \<open>dest\<close> has at least \<open>sz\<close> slots.
\<close>

definition copyToArray :: "'a circular_buffer \<Rightarrow> 'a option list \<Rightarrow> 'a option list" where
  "copyToArray b dest =
     (if head b \<le> tail b then
        fold (\<lambda>i d. d[i - head b := arr b ! i]) [head b ..< head b + sz b] dest
      else
        let head_len = cap b - head b;
            d1 = fold (\<lambda>i d. d[i - head b := arr b ! i]) [head b ..< cap b] dest
        in fold (\<lambda>i d. d[i + head_len := arr b ! i]) [0 ..< tail b + 1] d1)"

text \<open>
  \<^verbatim>\<open>increase_cap(new_cap)\<close> (lines 293-306): \<^verbatim>\<open>operator new\<close> returns a block of
  \<open>new_cap + 1\<close> raw slots; \<^verbatim>\<open>clear()\<close> destroys the old elements and resets \<open>head\<close>;
  the old block is released and the fields are overwritten.
\<close>

definition increase_cap :: "nat \<Rightarrow> 'a circular_buffer \<Rightarrow> 'a circular_buffer" where
  "increase_cap new_cap b =
     (if new_cap \<ge> cap b then
        let new_arr = copyToArray b (replicate (new_cap + 1) None);
            old_sz = sz b;
            b1 = clear b
        in b1\<lparr>cap := new_cap + 1, sz := old_sz, arr := new_arr\<rparr>
      else b)"

text \<open>\<^verbatim>\<open>ensure_cap()\<close> (lines 308-316); \<open>cap - 1\<close> is only computed for \<open>cap \<noteq> 0\<close>.\<close>

definition ensure_cap :: "'a circular_buffer \<Rightarrow> 'a circular_buffer" where
  "ensure_cap b =
     (if sz b + 1 \<ge> cap b then
        (if cap b = 0 then increase_cap 2 b else increase_cap (2 * (cap b - 1) + 1) b)
      else b)"

text \<open>
  The \<^verbatim>\<open>size_t\<close> arithmetic of \<^verbatim>\<open>increase_cap\<close>: the slot count \<^verbatim>\<open>new_cap + 1\<close> that is
  stored in \<open>cap\<close> (line 302) and the byte count \<^verbatim>\<open>(new_cap + 1) * sizeof(T)\<close> that is
  passed to \<^verbatim>\<open>operator new\<close> (line 295), both modulo \<open>2^64\<close>. \<open>increase_cap\<close> above is
  the source's function where neither wraps, that is where
  \<open>(new_cap + 1) * sizeof(T) < 2^64\<close>, and where \<^verbatim>\<open>operator new\<close> returns a block.
\<close>

definition block_slots :: "nat \<Rightarrow> nat" where
  "block_slots new_cap = (new_cap + 1) mod 2 ^ 64"

definition block_bytes :: "nat \<Rightarrow> nat \<Rightarrow> nat" where
  "block_bytes sizeof_T new_cap = (block_slots new_cap * sizeof_T) mod 2 ^ 64"

text \<open>
  \<^verbatim>\<open>reserve(desired_capacity)\<close> (lines 109-111). The argument is a \<^verbatim>\<open>size_t\<close>; the model
  is the source's function for the arguments on which \<open>increase_cap\<close> is.
\<close>

definition reserve :: "nat \<Rightarrow> 'a circular_buffer \<Rightarrow> 'a circular_buffer" where
  "reserve desired_capacity b = increase_cap desired_capacity b"

text \<open>
  \<^verbatim>\<open>push_back(val)\<close> (lines 67-76): on an empty buffer the element is constructed at
  \<^verbatim>\<open>arr\<close>, that is in slot 0, otherwise in slot \<open>(tail + 1) mod cap\<close>.
\<close>

definition push_back :: "'a \<Rightarrow> 'a circular_buffer \<Rightarrow> 'a circular_buffer" where
  "push_back val b =
     (let b1 = ensure_cap b;
          p = (if empty_cb b1 then 0 else (tail b1 + 1) mod cap b1)
      in b1\<lparr>arr := (arr b1)[p := Some val], sz := sz b1 + 1\<rparr>)"

text \<open>
  \<^verbatim>\<open>pop_back()\<close> and \<^verbatim>\<open>back()\<close> (lines 77-86). Popping an empty buffer is outside the
  contract of the source (\<^verbatim>\<open>--sz\<close> wraps there, \<open>nat\<close> subtraction stays at 0).
\<close>

definition pop_back :: "'a circular_buffer \<Rightarrow> 'a circular_buffer" where
  "pop_back b = b\<lparr>arr := (arr b)[tail b := None], sz := sz b - 1\<rparr>"

definition back_cb :: "'a circular_buffer \<Rightarrow> 'a option" where
  "back_cb b = arr b ! tail b"

text \<open>\<^verbatim>\<open>push_front(val)\<close> (lines 88-96).\<close>

definition push_front :: "'a \<Rightarrow> 'a circular_buffer \<Rightarrow> 'a circular_buffer" where
  "push_front val b =
     (let b1 = ensure_cap b;
          h = (if \<not> empty_cb b1 then (head b1 + cap b1 - 1) mod cap b1 else head b1)
      in b1\<lparr>head := h, arr := (arr b1)[h := Some val], sz := sz b1 + 1\<rparr>)"

text \<open>\<^verbatim>\<open>pop_front()\<close> and \<^verbatim>\<open>front()\<close> (lines 97-107).\<close>

definition pop_front :: "'a circular_buffer \<Rightarrow> 'a circular_buffer" where
  "pop_front b =
     b\<lparr>arr := (arr b)[head b := None], head := (head b + 1) mod cap b, sz := sz b - 1\<rparr>"

definition front :: "'a circular_buffer \<Rightarrow> 'a option" where
  "front b = arr b ! head b"

text \<open>
  \<^verbatim>\<open>circular_buffer(circular_buffer const& other)\<close> (lines 25-32): a default-constructed
  buffer reserves \<open>other.size()\<close> and receives \<^verbatim>\<open>push_back(*it)\<close> for every iterator of
  \<open>other\<close>. Reading a slot that holds no object has no defined value in the source;
  the model takes \<open>the\<close> of the slot.
\<close>

definition circular_buffer_copy :: "'a circular_buffer \<Rightarrow> 'a circular_buffer" where
  "circular_buffer_copy other =
     fold (\<lambda>it b. push_back (the (deref other it)) b)
          [begin_cb other ..< end_cb other]
          (reserve (size_cb other) circular_buffer_init)"

text \<open>\<^verbatim>\<open>std::swap(*p, *q)\<close> on the objects two iterators designate.\<close>

definition swap_at :: "nat \<Rightarrow> nat \<Rightarrow> 'a circular_buffer \<Rightarrow> 'a circular_buffer" where
  "swap_at p q b =
     b\<lparr>arr := (arr b)[get_arr_pos b p := deref b q, get_arr_pos b q := deref b p]\<rparr>"

text \<open>
  The two \<^verbatim>\<open>while\<close> statements of \<^verbatim>\<open>insert\<close> (lines 146-150 and 155-159); each returns the buffer and
  the final \<open>cur\<close>.
\<close>

function insert_up :: "'a circular_buffer \<Rightarrow> nat \<Rightarrow> nat \<Rightarrow> 'a circular_buffer \<times> nat" where
  "insert_up b cur pos =
     (if cur < pos then insert_up (swap_at cur (cur + 1) b) (cur + 1) pos else (b, cur))"
  by pat_completeness auto
termination
  by (relation "measure (\<lambda>(b, cur, pos). pos - cur)") auto

function insert_down :: "'a circular_buffer \<Rightarrow> nat \<Rightarrow> nat \<Rightarrow> 'a circular_buffer \<times> nat" where
  "insert_down b cur pos =
     (if cur > pos then insert_down (swap_at cur (cur - 1) b) (cur - 1) pos else (b, cur))"
  by pat_completeness auto
termination
  by (relation "measure (\<lambda>(b, cur, pos). cur)") auto

text \<open>
  \<^verbatim>\<open>insert(pos, val)\<close> (lines 142-162). The test compares two \<^verbatim>\<open>ptrdiff_t\<close>
  differences of iterators, hence the integers.
\<close>

definition insert_cb :: "nat \<Rightarrow> 'a \<Rightarrow> 'a circular_buffer \<Rightarrow> 'a circular_buffer \<times> nat" where
  "insert_cb pos val b =
     (if int pos - int (begin_cb b) < int (end_cb b) - int pos then
        let b1 = push_front val b in insert_up b1 (begin_cb b1) pos
      else
        let b1 = push_back val b in insert_down b1 (end_cb b1 - 1) pos)"

text \<open>
  The \<^verbatim>\<open>while\<close> statements of \<^verbatim>\<open>erase(pos)\<close> (lines 168-172 and 176-180). In the second one
  \<^verbatim>\<open>end() - 1\<close> is the index \<open>sz - 1\<close>, which wraps in the source when the buffer is
  empty; no valid \<open>pos\<close> exists then.
\<close>

function erase_down :: "'a circular_buffer \<Rightarrow> nat \<Rightarrow> 'a circular_buffer" where
  "erase_down b cur =
     (if cur > begin_cb b then erase_down (swap_at (cur - 1) cur b) (cur - 1) else b)"
  by pat_completeness auto
termination
  by (relation "measure (\<lambda>(b, cur). cur)") (auto simp: begin_cb_def)

function erase_up :: "'a circular_buffer \<Rightarrow> nat \<Rightarrow> 'a circular_buffer" where
  "erase_up b cur =
     (if cur < end_cb b - 1 then erase_up (swap_at (cur + 1) cur b) (cur + 1) else b)"
  by pat_completeness auto
termination
  by (relation "measure (\<lambda>(b, cur). sz b - cur)") (auto simp: end_cb_def swap_at_def)

text \<open>\<^verbatim>\<open>erase(pos)\<close> (lines 164-184): the buffer and the returned iterator.\<close>

definition erase :: "nat \<Rightarrow> 'a circular_buffer \<Rightarrow> 'a circular_buffer \<times> nat" where
  "erase pos b =
     (let index = pos in
      if int pos - int (begin_cb b) < int (end_cb b) - int pos then
        (pop_front (erase_down b index), index)
      else
        (pop_back (erase_up b index), index))"

text \<open>
  The \<^verbatim>\<open>while\<close> statements of \<^verbatim>\<open>erase(first, last)\<close> (lines 193-196 and 205-208), which move two
  iterators together.
\<close>

function erase_range_down :: "'a circular_buffer \<Rightarrow> nat \<Rightarrow> nat \<Rightarrow> 'a circular_buffer" where
  "erase_range_down b end_1 end_2 =
     (if end_1 > begin_cb b
      then erase_range_down (swap_at end_1 end_2 b) (end_1 - 1) (end_2 - 1) else b)"
  by pat_completeness auto
termination
  by (relation "measure (\<lambda>(b, end_1, end_2). end_1)") (auto simp: begin_cb_def)

function erase_range_up :: "'a circular_buffer \<Rightarrow> nat \<Rightarrow> nat \<Rightarrow> 'a circular_buffer" where
  "erase_range_up b begin_1 begin_2 =
     (if begin_1 < end_cb b
      then erase_range_up (swap_at begin_1 begin_2 b) (begin_1 + 1) (begin_2 + 1) else b)"
  by pat_completeness auto
termination
  by (relation "measure (\<lambda>(b, begin_1, begin_2). sz b - begin_1)")
     (auto simp: end_cb_def swap_at_def)

text \<open>
  \<^verbatim>\<open>erase(first, last)\<close> (lines 186-215), the two iterators given by their
  indices \<open>first_index\<close> and \<open>last_index\<close>. \<open>first_index - 1\<close> and \<open>last_index - 1\<close> are
  computed only when \<open>first > begin()\<close>, hence for \<open>first_index > 0\<close>;
  \<open>last_index - first_index\<close> wraps in the source when \<open>last < first\<close>, which is not a
  valid range.
\<close>

definition erase_range :: "nat \<Rightarrow> nat \<Rightarrow> 'a circular_buffer \<Rightarrow> 'a circular_buffer \<times> nat" where
  "erase_range first_index last_index b =
     (if int first_index - int (begin_cb b) < int (end_cb b) - int last_index then
        let b1 = (if first_index > begin_cb b
                  then erase_range_down b (first_index - 1) (last_index - 1) else b)
        in ((pop_front ^^ (last_index - first_index)) b1, first_index)
      else
        let b1 = (if last_index \<noteq> end_cb b
                  then erase_range_up b last_index first_index else b)
        in ((pop_back ^^ (last_index - first_index)) b1, first_index))"

subsection \<open>The logical sequence and the state invariant\<close>

text \<open>
  The sequence a caller reads through \<^verbatim>\<open>operator[]\<close> at the indices \<open>0 .. size() - 1\<close>.
\<close>

definition contents :: "'a circular_buffer \<Rightarrow> 'a option list" where
  "contents b = map (at_cb b) [0 ..< size_cb b]"

text \<open>
  The state invariant of the data model: \<open>sz < cap\<close> whenever \<open>cap > 0\<close>, and a slot
  holds an object exactly if it is slot \<open>(head + i) mod cap\<close> of some logical index
  \<open>i < sz\<close>.
\<close>

definition invariant :: "'a circular_buffer \<Rightarrow> bool" where
  "invariant b \<longleftrightarrow>
     (0 < cap b \<longrightarrow> sz b < cap b) \<and>
     (\<forall>p \<in> {0 ..< cap b}.
        (arr b ! p \<noteq> None) = (\<exists>i \<in> {0 ..< sz b}. p = (head b + i) mod cap b))"

text \<open>
  The shape of a state between two calls: the block has \<open>cap\<close> slots, and either
  there is no block (then the buffer is empty with \<open>head = 0\<close>) or \<open>sz < cap\<close> and
  \<open>head\<close> is a slot of the block. A well-formed state has this shape and satisfies the
  invariant.
\<close>

definition shape :: "'a circular_buffer \<Rightarrow> bool" where
  "shape b \<longleftrightarrow>
     length (arr b) = cap b \<and>
     (if cap b = 0 then sz b = 0 \<and> head b = 0 else sz b < cap b \<and> head b < cap b)"

definition wf :: "'a circular_buffer \<Rightarrow> bool" where
  "wf b \<longleftrightarrow> shape b \<and> invariant b"

subsection \<open>Sequences of operations at both ends and the reference deque\<close>

datatype 'a deque_op = PushBack 'a | PushFront 'a | PopBack | PopFront

fun apply_op :: "'a deque_op \<Rightarrow> 'a circular_buffer \<Rightarrow> 'a circular_buffer" where
  "apply_op (PushBack v) b = push_back v b"
| "apply_op (PushFront v) b = push_front v b"
| "apply_op PopBack b = pop_back b"
| "apply_op PopFront b = pop_front b"

text \<open>
  The reference double-ended queue of the specification: a list with its front at the
  head. Its observations are the front element, the back element and the size.
\<close>

fun deque_apply :: "'a deque_op \<Rightarrow> 'a list \<Rightarrow> 'a list" where
  "deque_apply (PushBack v) xs = xs @ [v]"
| "deque_apply (PushFront v) xs = v # xs"
| "deque_apply PopBack xs = butlast xs"
| "deque_apply PopFront xs = tl xs"

definition deque_obs :: "'a list \<Rightarrow> 'a option \<times> 'a option \<times> nat" where
  "deque_obs xs = (if xs = [] then (None, None, 0) else (Some (hd xs), Some (last xs), length xs))"

text \<open>
  The same observations on the buffer. \<^verbatim>\<open>front()\<close> and \<^verbatim>\<open>back()\<close> are only called on
  a non-empty buffer.
\<close>

definition buffer_obs :: "'a circular_buffer \<Rightarrow> 'a option \<times> 'a option \<times> nat" where
  "buffer_obs b = (if empty_cb b then (None, None, 0) else (front b, back_cb b, size_cb b))"

text \<open>A sequence of operations is admissible if it never pops an empty buffer.\<close>

fun admissible :: "'a deque_op list \<Rightarrow> nat \<Rightarrow> bool" where
  "admissible [] n = True"
| "admissible (PushBack v # ops) n = admissible ops (n + 1)"
| "admissible (PushFront v # ops) n = admissible ops (n + 1)"
| "admissible (PopBack # ops) n = (0 < n \<and> admissible ops (n - 1))"
| "admissible (PopFront # ops) n = (0 < n \<and> admissible ops (n - 1))"

fun is_push :: "'a deque_op \<Rightarrow> bool" where
  "is_push (PushBack v) = True"
| "is_push (PushFront v) = True"
| "is_push PopBack = False"
| "is_push PopFront = False"

text \<open>
  \<^verbatim>\<open>push_back\<close> constructs the new element of an empty buffer in slot 0, whatever
  \<open>head\<close> is. The call is sound if the buffer is not empty, or if \<open>head\<close> is 0 when the
  element is constructed (after \<^verbatim>\<open>ensure_cap\<close>). A sequence of operations is a sound run
  from a state if each of its \<^verbatim>\<open>push_back\<close> calls is.
\<close>

definition push_back_sound :: "'a circular_buffer \<Rightarrow> bool" where
  "push_back_sound b \<longleftrightarrow> (empty_cb b \<longrightarrow> head (ensure_cap b) = 0)"

fun sound_run :: "'a deque_op list \<Rightarrow> 'a circular_buffer \<Rightarrow> bool" where
  "sound_run [] b = True"
| "sound_run (PushBack v # ops) b = (push_back_sound b \<and> sound_run ops (push_back v b))"
| "sound_run (x # ops) b = sound_run ops (apply_op x b)"

text \<open>The recursive equations are unfolded by hand in the proofs below.\<close>

declare insert_up.simps [simp del] insert_down.simps [simp del]
  erase_down.simps [simp del] erase_up.simps [simp del]
  erase_range_down.simps [simp del] erase_range_up.simps [simp del]

section \<open>The position abstraction \<open>basic_iterator\<close>\<close>

text \<open>
  \<^verbatim>\<open>struct node\<close> (lines 237-252), the only data member of \<^verbatim>\<open>basic_iterator\<close>: a pointer
  to the buffer and a logical index. The pointer is an address; the buffers live in a
  store that maps addresses to buffer states, so that an access reads the state the
  buffer has when the access is made. The index has type \<^verbatim>\<open>size_t\<close>, and iterator
  arithmetic wraps: it is a 64-bit word (\<^verbatim>\<open>begin() - 1\<close> has the index \<open>2^64 - 1\<close>).
  A \<^verbatim>\<open>difference_type\<close> argument is the integer it denotes.
\<close>

record basic_iterator =
  buf :: nat
  arr_index :: "64 word"

type_synonym 'a store = "nat \<Rightarrow> 'a circular_buffer"

text \<open>\<^verbatim>\<open>begin()\<close> and \<^verbatim>\<open>end()\<close> of the buffer at address \<open>this\<close> (lines 116-127).\<close>

definition it_begin :: "'a store \<Rightarrow> nat \<Rightarrow> basic_iterator" where
  "it_begin st this = \<lparr>buf = this, arr_index = 0\<rparr>"

definition it_end :: "'a store \<Rightarrow> nat \<Rightarrow> basic_iterator" where
  "it_end st this = \<lparr>buf = this, arr_index = of_nat (sz (st this))\<rparr>"

text \<open>
  \<^verbatim>\<open>int get_arr_pos(size_t index)\<close> (lines 324-326) as the machine computes it:
  \<open>head\<close> is converted to \<^verbatim>\<open>size_t\<close>, the sum wraps at \<open>2^64\<close>, the remainder by \<open>cap\<close>
  is taken (a division by zero when \<open>cap = 0\<close>, which has no defined behaviour: the
  result is \<open>None\<close>), and the \<^verbatim>\<open>size_t\<close> result is converted to the 32-bit \<^verbatim>\<open>int\<close>
  the function returns (modulo \<open>2^32\<close>, into the two's-complement range: a remainder of
  \<open>2^31\<close> or more comes out negative).
\<close>

definition it_slot :: "'a circular_buffer \<Rightarrow> 64 word \<Rightarrow> int option" where
  "it_slot b index =
     (if cap b = 0 then None
      else Some (sint (word_of_nat (((head b + unat index) mod 2 ^ 64) mod cap b) :: 32 word)))"





definition it_sub_assign :: "basic_iterator \<Rightarrow> int \<Rightarrow> basic_iterator" where
  "it_sub_assign it k = it\<lparr>arr_index := arr_index it - word_of_int k\<rparr>"


definition it_minus :: "basic_iterator \<Rightarrow> int \<Rightarrow> basic_iterator" where
  "it_minus it k = it_sub_assign it k"


text \<open>\<^verbatim>\<open>operator==\<close> and \<^verbatim>\<open>operator<\<close> (lines 372-382).\<close>

definition it_eq :: "basic_iterator \<Rightarrow> basic_iterator \<Rightarrow> bool" where
  "it_eq a b \<longleftrightarrow> buf a = buf b \<and> arr_index a = arr_index b"

definition it_less :: "basic_iterator \<Rightarrow> basic_iterator \<Rightarrow> bool" where
  "it_less a b \<longleftrightarrow> buf a = buf b \<and> arr_index a < arr_index b"



section \<open>Growth with a throwing copy constructor\<close>

text \<open>
  The element type's copy constructor may throw. A predicate \<open>thr\<close> on the number of
  copy constructions made so far says which invocation throws, and every function
  returns the updated count: \<open>throws_at k\<close> is a copy constructor that throws on its
  invocation number \<open>k\<close> (counted from 0), \<open>never_throws\<close> one that does not throw. A block obtained from \<^verbatim>\<open>operator new\<close> is \<open>Allocated\<close>
  until \<^verbatim>\<open>operator delete\<close> is called on it; \<open>Released\<close> keeps the slots as they were
  at that moment.
\<close>

definition throws_at :: "nat \<Rightarrow> nat \<Rightarrow> bool" where
  "throws_at k n \<longleftrightarrow> n = k"

definition never_throws :: "nat \<Rightarrow> bool" where
  "never_throws n \<longleftrightarrow> False"

datatype 'a block = Allocated "'a option list" | Released "'a option list"

text \<open>
  \<^verbatim>\<open>delete_array(array, l, r)\<close> (lines 318-322): \<open>i\<close> runs from \<open>r + 1\<close> down to \<open>l + 1\<close>
  and the destructor runs on slot \<open>i - 1\<close>.
\<close>

definition delete_array :: "'a option list \<Rightarrow> nat \<Rightarrow> nat \<Rightarrow> 'a option list" where
  "delete_array array l r = fold (\<lambda>i a. a[i - 1 := None]) (rev [l + 1 ..< r + 2]) array"

text \<open>
  How \<^verbatim>\<open>copyToArray\<close> ends: it returns, or an exception leaves it, each with the state
  of the destination block and the count; or it constructs an object in a block that
  was released, which has no defined behaviour.
\<close>

datatype 'a copied = Returns "'a block" nat | Throws "'a block" nat | Undefined

text \<open>
  The \<^verbatim>\<open>for\<close> statements at lines 256-266 and 269-279, over the remaining values of
  \<open>i\<close>. The handler
  destroys the copies and releases the block only if \<open>i > head\<close>, then rethrows.
\<close>

fun copy_run ::
  "(nat \<Rightarrow> bool) \<Rightarrow> 'a circular_buffer \<Rightarrow> nat list \<Rightarrow> 'a option list \<Rightarrow> nat \<Rightarrow> 'a copied" where
  "copy_run thr b [] dest c = Returns (Allocated dest) c"
| "copy_run thr b (i # is) dest c =
     (if thr c then
        (if i > head b
         then Throws (Released (delete_array dest 0 (i - head b - 1))) (c + 1)
         else Throws (Allocated dest) (c + 1))
      else copy_run thr b is (dest[i - head b := arr b ! i]) (c + 1))"

text \<open>
  The loop at lines 280-289. Its handler destroys the slots from \<open>head_len\<close> on and
  releases the block if \<open>i > 0\<close>, and does not rethrow: the loop goes on.
\<close>

fun copy_run_wrapped ::
  "(nat \<Rightarrow> bool) \<Rightarrow> 'a circular_buffer \<Rightarrow> nat \<Rightarrow> nat list \<Rightarrow> 'a block \<Rightarrow> nat \<Rightarrow> 'a copied" where
  "copy_run_wrapped thr b head_len [] blk c = Returns blk c"
| "copy_run_wrapped thr b head_len (i # is) (Released dest) c = Undefined"
| "copy_run_wrapped thr b head_len (i # is) (Allocated dest) c =
     (if thr c then
        copy_run_wrapped thr b head_len is
          (if i > 0
           then Released (delete_array dest head_len (head_len + i - 1))
           else Allocated dest)
          (c + 1)
      else
        copy_run_wrapped thr b head_len is (Allocated (dest[i + head_len := arr b ! i])) (c + 1))"

text \<open>\<^verbatim>\<open>copyToArray(dest)\<close> (lines 254-291).\<close>

definition copyToArray_exc ::
  "(nat \<Rightarrow> bool) \<Rightarrow> 'a circular_buffer \<Rightarrow> 'a option list \<Rightarrow> nat \<Rightarrow> 'a copied" where
  "copyToArray_exc thr b dest c =
     (if head b \<le> tail b then copy_run thr b [head b ..< head b + sz b] dest c
      else
        let head_len = cap b - head b in
        case copy_run thr b [head b ..< cap b] dest c of
          Returns blk c1 \<Rightarrow> copy_run_wrapped thr b head_len [0 ..< tail b + 1] blk c1
        | Throws blk c1 \<Rightarrow> Throws blk c1
        | Undefined \<Rightarrow> Undefined)"

text \<open>
  How a call on the buffer ends: it returns with the new state; or an exception
  propagates to the caller, with the state of the buffer and the blocks the call
  obtained from \<^verbatim>\<open>operator new\<close> and no pointer refers to any more (a block that is still
  \<open>Allocated\<close> there is leaked); or the call constructs an object in a released block
  or leaves \<^verbatim>\<open>arr\<close> pointing to one.
\<close>

datatype 'a outcome =
  Normal "'a circular_buffer" nat
| Propagates "'a circular_buffer" "'a block list" nat
| Use_after_free

text \<open>
  \<^verbatim>\<open>increase_cap(new_cap)\<close> (lines 293-306). An exception from \<^verbatim>\<open>copyToArray\<close> leaves the
  function at once; after a normal return the pointer \<open>new_arr\<close> becomes \<^verbatim>\<open>arr\<close>, also
  when the block behind it was released.
\<close>

definition increase_cap_exc ::
  "(nat \<Rightarrow> bool) \<Rightarrow> nat \<Rightarrow> 'a circular_buffer \<Rightarrow> nat \<Rightarrow> 'a outcome" where
  "increase_cap_exc thr new_cap b c =
     (if new_cap \<ge> cap b then
        case copyToArray_exc thr b (replicate (new_cap + 1) None) c of
          Throws blk c1 \<Rightarrow> Propagates b [blk] c1
        | Undefined \<Rightarrow> Use_after_free
        | Returns (Released d) c1 \<Rightarrow> Use_after_free
        | Returns (Allocated new_arr) c1 \<Rightarrow>
            Normal ((clear b)\<lparr>cap := new_cap + 1, sz := sz b, arr := new_arr\<rparr>) c1
      else Normal b c)"

text \<open>\<^verbatim>\<open>ensure_cap()\<close> (lines 308-316) and \<^verbatim>\<open>reserve\<close> (lines 109-111).\<close>

definition ensure_cap_exc :: "(nat \<Rightarrow> bool) \<Rightarrow> 'a circular_buffer \<Rightarrow> nat \<Rightarrow> 'a outcome" where
  "ensure_cap_exc thr b c =
     (if sz b + 1 \<ge> cap b then
        (if cap b = 0 then increase_cap_exc thr 2 b c
         else increase_cap_exc thr (2 * (cap b - 1) + 1) b c)
      else Normal b c)"

definition reserve_exc :: "(nat \<Rightarrow> bool) \<Rightarrow> nat \<Rightarrow> 'a circular_buffer \<Rightarrow> nat \<Rightarrow> 'a outcome" where
  "reserve_exc thr desired_capacity b c = increase_cap_exc thr desired_capacity b c"

text \<open>
  \<^verbatim>\<open>push_back(val)\<close> (lines 67-76): the copy \<^verbatim>\<open>T val_copy(val)\<close>, then \<^verbatim>\<open>ensure_cap()\<close>,
  then the copy construction of the new element from \<open>val_copy\<close>.
\<close>

definition push_back_exc :: "(nat \<Rightarrow> bool) \<Rightarrow> 'a \<Rightarrow> 'a circular_buffer \<Rightarrow> nat \<Rightarrow> 'a outcome" where
  "push_back_exc thr val b c =
     (if thr c then Propagates b [] (c + 1)
      else
        case ensure_cap_exc thr b (c + 1) of
          Normal b1 c1 \<Rightarrow>
            (if thr c1 then Propagates b1 [] (c1 + 1)
             else
               let p = (if empty_cb b1 then 0 else (tail b1 + 1) mod cap b1)
               in Normal (b1\<lparr>arr := (arr b1)[p := Some val], sz := sz b1 + 1\<rparr>) (c1 + 1))
        | Propagates b1 blks c1 \<Rightarrow> Propagates b1 blks c1
        | Use_after_free \<Rightarrow> Use_after_free)"

section \<open>Size and capacity of the operations\<close>

lemma sz_clear: "sz (clear b) = 0"
  by (simp add: clear_def)

lemma head_clear: "head (clear b) = 0"
  by (simp add: clear_def)

lemma cap_fold_destroy_at: "cap (fold destroy_at ks b) = cap b"
  by (induction ks arbitrary: b) (simp_all add: destroy_at_def)

lemma cap_clear: "cap (clear b) = cap b"
  by (simp add: clear_def cap_fold_destroy_at)

lemma sz_increase_cap: "sz (increase_cap n b) = sz b"
  by (simp add: increase_cap_def Let_def)

lemma cap_increase_cap: "cap (increase_cap n b) = (if cap b \<le> n then n + 1 else cap b)"
  by (simp add: increase_cap_def Let_def)

lemma sz_ensure_cap: "sz (ensure_cap b) = sz b"
  by (simp add: ensure_cap_def sz_increase_cap)

lemma cap_ensure_cap:
  "cap (ensure_cap b) =
     (if cap b \<le> sz b + 1 then (if cap b = 0 then 3 else 2 * cap b) else cap b)"
  by (auto simp: ensure_cap_def cap_increase_cap)

lemma sz_push_back: "sz (push_back v b) = sz b + 1"
  by (simp add: push_back_def Let_def sz_ensure_cap)

lemma cap_push_back: "cap (push_back v b) = cap (ensure_cap b)"
  by (simp add: push_back_def Let_def)

lemma sz_push_front: "sz (push_front v b) = sz b + 1"
  by (simp add: push_front_def Let_def sz_ensure_cap)

lemma cap_push_front: "cap (push_front v b) = cap (ensure_cap b)"
  by (simp add: push_front_def Let_def)

text \<open>A run of \<^verbatim>\<open>push_back\<close> calls that fits into the free slots never reallocates.\<close>

lemma fold_push_back_no_growth:
  "sz b + length xs < cap b \<Longrightarrow>
   cap (fold (\<lambda>x. push_back (f x)) xs b) = cap b \<and>
   sz (fold (\<lambda>x. push_back (f x)) xs b) = sz b + length xs"
proof (induction xs arbitrary: b)
  case Nil
  then show ?case by simp
next
  case (Cons x xs)
  have c: "cap (push_back (f x) b) = cap b"
    using Cons.prems by (simp add: cap_push_back cap_ensure_cap)
  have s: "sz (push_back (f x) b) = sz b + 1"
    by (rule sz_push_back)
  have "sz (push_back (f x) b) + length xs < cap (push_back (f x) b)"
    using Cons.prems c s by simp
  from Cons.IH [OF this] show ?case
    using c s by simp
qed

text \<open>
  The capacity after any number of \<^verbatim>\<open>push_back\<close> calls on a default-constructed
  buffer: three times a power of two, above the size and at most twice the size plus one.
\<close>

lemma push_back_run:
  "xs \<noteq> [] \<Longrightarrow>
   sz (fold push_back xs circular_buffer_init) = length xs \<and>
   (\<exists>k. cap (fold push_back xs circular_buffer_init) = 3 * 2 ^ k) \<and>
   length xs < cap (fold push_back xs circular_buffer_init) \<and>
   cap (fold push_back xs circular_buffer_init) \<le> 2 * length xs + 1"
proof (induction xs rule: rev_induct)
  case Nil
  then show ?case by simp
next
  case (snoc x xs)
  let ?b = "fold push_back xs (circular_buffer_init :: 'a circular_buffer)"
  show ?case
  proof (cases "xs = []")
    case True
    then show ?thesis
      by (simp add: sz_push_back cap_push_back cap_ensure_cap circular_buffer_init_def)
  next
    case False
    from snoc.IH [OF False] obtain k where
      s: "sz ?b = length xs" and c: "cap ?b = 3 * 2 ^ k"
      and lo: "length xs < cap ?b" and hi: "cap ?b \<le> 2 * length xs + 1"
      by blast
    have pos: "cap ?b \<noteq> 0" using lo by simp
    show ?thesis
    proof (cases "cap ?b \<le> sz ?b + 1")
      case True
      then have c': "cap (push_back x ?b) = 2 * cap ?b"
        using pos by (simp add: cap_push_back cap_ensure_cap)
      have "cap (push_back x ?b) = 3 * 2 ^ Suc k"
        using c c' by simp
      then have "\<exists>k'. cap (push_back x ?b) = 3 * 2 ^ k'" ..
      then show ?thesis
        using True s lo c' by (simp add: sz_push_back)
    next
      case False
      then have c': "cap (push_back x ?b) = cap ?b"
        by (simp add: cap_push_back cap_ensure_cap)
      have "\<exists>k'. cap (push_back x ?b) = 3 * 2 ^ k'"
        using c c' by auto
      then show ?thesis
        using False s hi c' by (simp add: sz_push_back)
    qed
  qed
qed

section \<open>Circular indexing and growth\<close>

lemma mod_add_inj_le:
  fixes h c i j :: nat
  assumes "i \<le> j" "j < c" "(h + i) mod c = (h + j) mod c"
  shows "i = j"
proof -
  have "h + i \<le> h + j" using assms by simp
  from mod_eq_dvd_iff_nat [OF this, of c] have "c dvd (h + j) - (h + i)"
    using assms by simp
  then have "c dvd j - i" by simp
  moreover have "j - i < c" using assms by simp
  ultimately have "j - i = 0"
    using nat_dvd_not_less by blast
  then show ?thesis using assms by simp
qed

lemma mod_add_inj:
  fixes h c i j :: nat
  assumes "i < c" "j < c" "(h + i) mod c = (h + j) mod c"
  shows "i = j"
proof (cases "i \<le> j")
  case True
  then show ?thesis using assms mod_add_inj_le by blast
next
  case False
  then have "j \<le> i" by simp
  then show ?thesis using assms mod_add_inj_le [of j i c h] by simp
qed

lemma length_fold_update: "length (fold (\<lambda>i d. d[f i := g i]) ks d) = length d"
  by (induction ks arbitrary: d) simp_all

lemma nth_fold_update_sub:
  "a \<le> c \<Longrightarrow> k < length d \<Longrightarrow> fold (\<lambda>i d. d[i - a := g i]) [a ..< c] d ! k
     = (if k < c - a then g (a + k) else d ! k)"
proof (induction c)
  case 0
  then show ?case by simp
next
  case (Suc c)
  show ?case
  proof (cases "a \<le> c")
    case True
    let ?d = "fold (\<lambda>i d. d[i - a := g i]) [a ..< c] d"
    have step: "fold (\<lambda>i d. d[i - a := g i]) [a ..< Suc c] d = ?d[c - a := g c]"
      using True by simp
    show ?thesis
    proof (cases "k = c - a")
      case True
      then have "a + k = c" using \<open>a \<le> c\<close> by simp
      then show ?thesis
        using True \<open>a \<le> c\<close> Suc.prems by (simp add: step length_fold_update Suc_diff_le)
    next
      case False
      then have "?d[c - a := g c] ! k = ?d ! k" by simp
      also have "\<dots> = (if k < c - a then g (a + k) else d ! k)"
        using Suc.IH True Suc.prems by simp
      also have "\<dots> = (if k < Suc c - a then g (a + k) else d ! k)"
        using False True by (auto simp: less_Suc_eq Suc_diff_le)
      finally show ?thesis by (simp add: step)
    qed
  next
    case False
    with Suc.prems have "a = Suc c" by simp
    then show ?thesis by simp
  qed
qed

lemma nth_fold_update_add:
  "k < length d \<Longrightarrow> fold (\<lambda>i d. d[i + h := g i]) [0 ..< c] d ! k
     = (if h \<le> k \<and> k < h + c then g (k - h) else d ! k)"
proof (induction c)
  case 0
  then show ?case by auto
next
  case (Suc c)
  let ?d = "fold (\<lambda>i d. d[i + h := g i]) [0 ..< c] d"
  have step: "fold (\<lambda>i d. d[i + h := g i]) [0 ..< Suc c] d = ?d[c + h := g c]"
    by simp
  show ?case
  proof (cases "k = c + h")
    case True
    then show ?thesis using Suc.prems by (simp add: step length_fold_update)
  next
    case False
    then have "?d[c + h := g c] ! k = ?d ! k" by simp
    also have "\<dots> = (if h \<le> k \<and> k < h + c then g (k - h) else d ! k)"
      using Suc.IH Suc.prems by simp
    also have "\<dots> = (if h \<le> k \<and> k < h + Suc c then g (k - h) else d ! k)"
      using False by (auto simp: less_Suc_eq)
    finally show ?thesis by (simp add: step)
  qed
qed


lemma tail_eq:
  assumes "shape b" "0 < sz b"
  shows "tail b = (if head b + sz b \<le> cap b then head b + sz b - 1
                   else head b + sz b - 1 - cap b)"
proof -
  from assms have c: "0 < cap b" "sz b < cap b" "head b < cap b"
    by (auto simp: shape_def split: if_splits)
  have t: "tail b = (head b + sz b + cap b - 1) mod cap b"
    using assms by (simp add: tail_def)
  show ?thesis
  proof (cases "head b + sz b \<le> cap b")
    case True
    have "head b + sz b + cap b - 1 = (head b + sz b - 1) + cap b"
      using assms by simp
    then have "tail b = (head b + sz b - 1) mod cap b"
      using t by simp
    then show ?thesis using True assms by simp
  next
    case False
    have "head b + sz b + cap b - 1 = (head b + sz b - 1 - cap b) + cap b + cap b"
      using False by simp
    then have "tail b = (head b + sz b - 1 - cap b) mod cap b"
      using t by (metis mod_add_self2)
    then show ?thesis using False c by simp
  qed
qed

lemma at_cb_nowrap: "shape b \<Longrightarrow> head b + k < cap b \<Longrightarrow> at_cb b k = arr b ! (head b + k)"
  by (simp add: at_cb_def)

lemma at_cb_wrap:
  assumes "shape b" "cap b \<le> head b + k" "k < cap b"
  shows "at_cb b k = arr b ! (head b + k - cap b)"
proof -
  from assms have "head b < cap b" by (auto simp: shape_def split: if_splits)
  then have "(head b + k) mod cap b = head b + k - cap b"
    using assms by (simp add: le_mod_geq)
  then show ?thesis by (simp add: at_cb_def)
qed

lemma length_contents: "length (contents b) = sz b"
  by (simp add: contents_def size_cb_def)

lemma nth_contents: "k < sz b \<Longrightarrow> contents b ! k = at_cb b k"
  by (simp add: contents_def size_cb_def)

lemma length_copyToArray: "length (copyToArray b dest) = length dest"
  by (simp add: copyToArray_def Let_def length_fold_update)

lemma copyToArray_contents:
  assumes "shape b" "sz b \<le> m"
  shows "copyToArray b (replicate m None) = contents b @ replicate (m - sz b) None"
proof (rule nth_equalityI)
  show "length (copyToArray b (replicate m None)) = length (contents b @ replicate (m - sz b) None)"
    using assms by (simp add: length_copyToArray length_contents)
next
  fix k
  assume "k < length (copyToArray b (replicate m None))"
  then have k: "k < m" by (simp add: length_copyToArray)
  show "copyToArray b (replicate m None) ! k = (contents b @ replicate (m - sz b) None) ! k"
  proof (cases "sz b = 0")
    case True
    then show ?thesis
      using k by (simp add: copyToArray_def tail_def contents_def size_cb_def)
  next
    case False
    then have pos: "0 < sz b" by simp
    from assms pos have c: "0 < cap b" "sz b < cap b" "head b < cap b"
      by (auto simp: shape_def split: if_splits)
    note t = tail_eq [OF assms(1) pos]
    show ?thesis
    proof (cases "head b + sz b \<le> cap b")
      case True
      then have ht: "head b \<le> tail b" using t pos by simp
      have "copyToArray b (replicate m None) ! k
              = (if k < sz b then arr b ! (head b + k) else None)"
        using ht k by (simp add: copyToArray_def nth_fold_update_sub)
      also have "\<dots> = (contents b @ replicate (m - sz b) None) ! k"
        using True k assms
        by (auto simp: nth_append length_contents nth_contents at_cb_nowrap)
      finally show ?thesis .
    next
      case False
      then have ht: "\<not> head b \<le> tail b" using t c by simp
      have tl1: "tail b + 1 = head b + sz b - cap b" using t False by simp
      let ?d1 = "fold (\<lambda>i d. d[i - head b := arr b ! i]) [head b ..< cap b] (replicate m None)"
      have d1: "?d1 ! k = (if k < cap b - head b then arr b ! (head b + k) else None)"
        using k c by (simp add: nth_fold_update_sub)
      have "copyToArray b (replicate m None) ! k =
              fold (\<lambda>i d. d[i + (cap b - head b) := arr b ! i]) [0 ..< tail b + 1] ?d1 ! k"
        using ht by (simp add: copyToArray_def Let_def)
      also have "\<dots> = (if cap b - head b \<le> k \<and> k < cap b - head b + (tail b + 1)
                         then arr b ! (k - (cap b - head b)) else ?d1 ! k)"
        using k
        by (intro nth_fold_update_add [where g = "\<lambda>i. arr b ! i" and h = "cap b - head b"
              and c = "tail b + 1" and d = ?d1 and k = k])
           (simp add: length_fold_update)
      also have "\<dots> = (contents b @ replicate (m - sz b) None) ! k"
      proof (cases "k < sz b")
        case ks: True
        show ?thesis
        proof (cases "k < cap b - head b")
          case True
          then show ?thesis
            using ks d1 assms
            by (simp add: nth_append length_contents nth_contents at_cb_nowrap)
        next
          case False
          then have "cap b \<le> head b + k" by simp
          moreover have "k < cap b" using ks c by simp
          ultimately have "at_cb b k = arr b ! (head b + k - cap b)"
            using at_cb_wrap assms by blast
          moreover have "k - (cap b - head b) = head b + k - cap b"
            using c False by simp
          ultimately show ?thesis
            using ks False tl1 c
            by (simp add: nth_append length_contents nth_contents)
        qed
      next
        case kn: False
        then have "\<not> k < cap b - head b" using \<open>\<not> head b + sz b \<le> cap b\<close> by simp
        then show ?thesis
          using kn d1 tl1 c k \<open>\<not> head b + sz b \<le> cap b\<close>
          by (simp add: nth_append length_contents)
      qed
      finally show ?thesis .
    qed
  qed
qed


lemma increase_cap_grow:
  "cap b \<le> n \<Longrightarrow>
   increase_cap n b
     = \<lparr>head = 0, sz = sz b, cap = n + 1, arr = copyToArray b (replicate (n + 1) None)\<rparr>"
  by (simp add: increase_cap_def Let_def clear_def)

lemma shape_sz_le: "shape b \<Longrightarrow> sz b \<le> cap b"
  by (auto simp: shape_def split: if_splits)

lemma increase_cap_linear:
  assumes "shape b" "cap b \<le> n"
  shows "increase_cap n b
     = \<lparr>head = 0, sz = sz b, cap = n + 1,
        arr = contents b @ replicate (n + 1 - sz b) None\<rparr>"
proof -
  have le: "sz b \<le> n + 1" using assms shape_sz_le [of b] by simp
  show ?thesis
    unfolding increase_cap_grow [OF assms(2)] copyToArray_contents [OF assms(1) le]
    by (rule refl)
qed

lemma contents_linear:
  assumes "length xs = s" "s \<le> c"
  shows "contents \<lparr>head = 0, sz = s, cap = c, arr = xs @ ys\<rparr> = xs"
proof (rule nth_equalityI)
  show "length (contents \<lparr>head = 0, sz = s, cap = c, arr = xs @ ys\<rparr>) = length xs"
    using assms by (simp add: length_contents)
next
  fix k
  assume "k < length (contents \<lparr>head = 0, sz = s, cap = c, arr = xs @ ys\<rparr>)"
  then have "k < s" by (simp add: length_contents)
  then show "contents \<lparr>head = 0, sz = s, cap = c, arr = xs @ ys\<rparr> ! k = xs ! k"
    using assms by (simp add: nth_contents at_cb_def nth_append)
qed

lemma contents_increase_cap:
  assumes "shape b"
  shows "contents (increase_cap n b) = contents b"
proof (cases "cap b \<le> n")
  case True
  have "sz b \<le> n + 1" using assms True shape_sz_le [of b] by simp
  then show ?thesis
    unfolding increase_cap_linear [OF assms True]
    by (intro contents_linear) (simp_all add: length_contents)
next
  case False
  then show ?thesis by (simp add: increase_cap_def)
qed

lemma shape_increase_cap:
  assumes "shape b"
  shows "shape (increase_cap n b)"
proof (cases "cap b \<le> n")
  case True
  have "sz b < n + 1" using assms True by (auto simp: shape_def split: if_splits)
  then show ?thesis
    unfolding increase_cap_linear [OF assms True]
    by (simp add: shape_def length_contents)
next
  case False
  then show ?thesis using assms by (simp add: increase_cap_def)
qed

lemma live_contents:
  assumes "shape b" "invariant b" "k < sz b"
  shows "at_cb b k \<noteq> None"
proof -
  from assms have c: "0 < cap b" by (auto simp: shape_def split: if_splits)
  then have "(head b + k) mod cap b \<in> {0 ..< cap b}" by simp
  moreover have "\<exists>i \<in> {0 ..< sz b}. (head b + k) mod cap b = (head b + i) mod cap b"
    using assms(3) by auto
  ultimately have "arr b ! ((head b + k) mod cap b) \<noteq> None"
    using assms(2) unfolding invariant_def by blast
  then show ?thesis by (simp add: at_cb_def)
qed

lemma invariant_linear:
  assumes "length xs = s" "s < c" "\<forall>x \<in> set xs. x \<noteq> None"
  shows "invariant \<lparr>head = 0, sz = s, cap = c, arr = xs @ replicate (c - s) None\<rparr>"
  unfolding invariant_def
proof (intro conjI ballI)
  show "0 < cap \<lparr>head = 0, sz = s, cap = c, arr = xs @ replicate (c - s) None\<rparr> \<longrightarrow>
        sz \<lparr>head = 0, sz = s, cap = c, arr = xs @ replicate (c - s) None\<rparr>
          < cap \<lparr>head = 0, sz = s, cap = c, arr = xs @ replicate (c - s) None\<rparr>"
    using assms by simp
next
  fix p
  let ?b = "\<lparr>head = 0, sz = s, cap = c, arr = xs @ replicate (c - s) None\<rparr>"
  assume "p \<in> {0 ..< cap ?b}"
  then have p: "p < c" by simp
  have "(arr ?b ! p \<noteq> None) = (p < s)"
    using assms p by (auto simp: nth_append)
  also have "\<dots> = (\<exists>i \<in> {0 ..< sz ?b}. p = (head ?b + i) mod cap ?b)"
    using assms p by auto
  finally show "(arr ?b ! p \<noteq> None) = (\<exists>i \<in> {0 ..< sz ?b}. p = (head ?b + i) mod cap ?b)" .
qed

lemma invariant_increase_cap:
  assumes "shape b" "invariant b"
  shows "invariant (increase_cap n b)"
proof (cases "cap b \<le> n")
  case True
  have s: "sz b < n + 1" using assms True by (auto simp: shape_def split: if_splits)
  have "\<forall>x \<in> set (contents b). x \<noteq> None"
    using live_contents [OF assms] by (auto simp: contents_def size_cb_def)
  from invariant_linear [OF length_contents s this]
  show ?thesis
    unfolding increase_cap_linear [OF assms(1) True] .
next
  case False
  then show ?thesis using assms by (simp add: increase_cap_def)
qed

section \<open>Copy construction\<close>

text \<open>
  Claim C10. The copy constructor produces a buffer whose \<^verbatim>\<open>capacity()\<close> is the size of
  the source plus one, whatever the capacity of the source; the copy of a
  default-constructed (empty, never allocated) buffer has capacity 1, not 0.
\<close>

theorem copy_capacity:
  "capacity (circular_buffer_copy (other :: 'a circular_buffer)) = size_cb other + 1 \<and>
   capacity (circular_buffer_copy (circular_buffer_init :: 'a circular_buffer)) = 1"
proof -
  have *: "capacity (circular_buffer_copy b) = size_cb b + 1" for b :: "'a circular_buffer"
  proof -
    let ?b = "reserve (size_cb b) (circular_buffer_init :: 'a circular_buffer)"
    have c: "cap ?b = sz b + 1"
      by (simp add: reserve_def cap_increase_cap circular_buffer_init_def size_cb_def)
    have s: "sz ?b = 0"
      by (simp add: reserve_def sz_increase_cap circular_buffer_init_def)
    have "sz ?b + length [begin_cb b ..< end_cb b] < cap ?b"
      using c s by (simp add: begin_cb_def end_cb_def)
    from fold_push_back_no_growth [OF this, of "\<lambda>it. the (deref b it)"]
    show ?thesis
      using c by (simp add: circular_buffer_copy_def capacity_def size_cb_def)
  qed
  show ?thesis
    using * [of other] * [of circular_buffer_init]
    by (simp add: size_cb_def circular_buffer_init_def)
qed

section \<open>Growth\<close>

text \<open>
  Claim C3 as stated fails: the first \<^verbatim>\<open>push_back\<close> on a default-constructed buffer
  leaves \<^verbatim>\<open>capacity()\<close> at 3, not 2; the third one finds \<open>size + 1 \<ge> capacity\<close> with
  capacity 3 and leaves the capacity at 6, not at \<open>2 * (3 - 1) + 1 = 5\<close>; and the
  capacities reached by repeated \<^verbatim>\<open>push_back\<close> calls are 0, 3, 6, 12, not 0, 2, 3, 5.
\<close>

theorem growth_counterexample:
  "capacity (push_back (7::nat) circular_buffer_init) \<noteq> 2 \<and>
   sz (fold push_back [7, 7 :: nat] circular_buffer_init) + 1
     \<ge> capacity (fold push_back [7, 7 :: nat] circular_buffer_init) \<and>
   capacity (push_back 7 (fold push_back [7, 7 :: nat] circular_buffer_init))
     \<noteq> 2 * (capacity (fold push_back [7, 7 :: nat] circular_buffer_init) - 1) + 1 \<and>
   [capacity (circular_buffer_init :: nat circular_buffer),
    capacity (fold push_back [7 :: nat] circular_buffer_init),
    capacity (fold push_back [7, 7, 7 :: nat] circular_buffer_init),
    capacity (fold push_back [7, 7, 7, 7, 7, 7 :: nat] circular_buffer_init)]
     \<noteq> [0, 2, 3, 5]"
  by code_simp

text \<open>
  Claim C3, amended. When an insertion finds \<open>size + 1 \<ge> capacity\<close>, the capacity becomes
  twice the capacity (\<^verbatim>\<open>increase_cap\<close> is asked for \<open>2 * (capacity - 1) + 1\<close> and allocates
  one slot more than it is asked for), or 3 if the buffer was never allocated; otherwise
  the capacity is unchanged. Starting from a default-constructed buffer, repeated
  \<^verbatim>\<open>push_back\<close> calls give the capacities 0, 3, 6, 12, 24: after \<open>n \<ge> 1\<close> calls the
  capacity is 3 times a power of two, greater than \<open>n\<close> and at most \<open>2 * n + 1\<close>.
\<close>

theorem growth_capacity:
  "capacity (ensure_cap b) =
     (if sz b + 1 \<ge> cap b then (if cap b = 0 then 3 else 2 * cap b) else cap b) \<and>
   capacity (push_back v b) = capacity (ensure_cap b) \<and>
   capacity (push_front v b) = capacity (ensure_cap b) \<and>
   map (\<lambda>n. capacity (fold push_back (replicate n v) circular_buffer_init)) [0 ..< 13]
     = [0, 3, 3, 6, 6, 6, 12, 12, 12, 12, 12, 12, 24] \<and>
   (xs \<noteq> [] \<longrightarrow>
      (\<exists>k. capacity (fold push_back xs circular_buffer_init) = 3 * 2 ^ k) \<and>
      length xs < capacity (fold push_back xs circular_buffer_init) \<and>
      capacity (fold push_back xs circular_buffer_init) \<le> 2 * length xs + 1)"
proof (intro conjI)
  show "capacity (ensure_cap b) =
     (if sz b + 1 \<ge> cap b then (if cap b = 0 then 3 else 2 * cap b) else cap b)"
    by (simp add: capacity_def cap_ensure_cap)
  show "capacity (push_back v b) = capacity (ensure_cap b)"
    by (simp add: capacity_def cap_push_back)
  show "capacity (push_front v b) = capacity (ensure_cap b)"
    by (simp add: capacity_def cap_push_front)
  show "map (\<lambda>n. capacity (fold push_back (replicate n v) circular_buffer_init)) [0 ..< 13]
     = [0, 3, 3, 6, 6, 6, 12, 12, 12, 12, 12, 12, 24]"
    by code_simp
  show "xs \<noteq> [] \<longrightarrow>
      (\<exists>k. capacity (fold push_back xs circular_buffer_init) = 3 * 2 ^ k) \<and>
      length xs < capacity (fold push_back xs circular_buffer_init) \<and>
      capacity (fold push_back xs circular_buffer_init) \<le> 2 * length xs + 1"
    using push_back_run [of xs] by (simp add: capacity_def)
qed

theorem growth_capacity_witness:
  "capacity (ensure_cap (fold push_back [1, 2 :: nat] circular_buffer_init)) = 6 \<and>
   [1, 2, 3 :: nat] \<noteq> [] \<and>
   capacity (fold push_back [1, 2, 3 :: nat] circular_buffer_init) = 3 * 2 ^ 1"
proof -
  have a: "sz (fold push_back [1, 2 :: nat] circular_buffer_init) = 2"
    by code_simp
  have b: "cap (fold push_back [1, 2 :: nat] circular_buffer_init) = 3"
    by code_simp
  have c: "capacity (fold push_back [1, 2, 3 :: nat] circular_buffer_init) = 6"
    by code_simp
  show ?thesis
    using growth_capacity [of "fold push_back [1, 2 :: nat] circular_buffer_init" 0 "[1, 2, 3 :: nat]"]
      a b c by simp
qed

section \<open>Reserve\<close>



text \<open>
  Without the bound the slot count wraps: for the largest \<^verbatim>\<open>size_t\<close> argument the source
  asks \<^verbatim>\<open>operator new\<close> for no byte at all and stores the capacity 0.
\<close>

lemma block_slots_wrap: "block_slots (2 ^ 64 - 1) = 0" "block_bytes sizeof_T (2 ^ 64 - 1) = 0"
  by (simp_all add: block_slots_def block_bytes_def)



section \<open>Removal at the ends and \<^verbatim>\<open>clear\<close>\<close>

lemma sz_pop_back: "sz (pop_back b) = sz b - 1"
  by (simp add: pop_back_def)

lemma sz_pop_front: "sz (pop_front b) = sz b - 1"
  by (simp add: pop_front_def)

lemma cap_pop_back: "cap (pop_back b) = cap b"
  by (simp add: pop_back_def)

lemma cap_pop_front: "cap (pop_front b) = cap b"
  by (simp add: pop_front_def)

lemma head_fold_destroy_at: "head (fold destroy_at ks b) = head b"
  by (induction ks arbitrary: b) (simp_all add: destroy_at_def)

lemma length_arr_fold_destroy_at: "length (arr (fold destroy_at ks b)) = length (arr b)"
  by (induction ks arbitrary: b) (simp_all add: destroy_at_def)

lemma nth_arr_fold_destroy_at:
  "p < length (arr b) \<Longrightarrow>
   arr (fold destroy_at ks b) ! p
     = (if p \<in> get_arr_pos b ` set ks then None else arr b ! p)"
proof (induction ks arbitrary: b)
  case Nil
  then show ?case by simp
next
  case (Cons k ks)
  have g: "get_arr_pos (destroy_at k b) = get_arr_pos b"
    by (rule ext) (simp add: get_arr_pos_def destroy_at_def)
  have l: "p < length (arr (destroy_at k b))"
    using Cons.prems by (simp add: destroy_at_def)
  have "arr (fold destroy_at (k # ks) b) ! p
          = (if p \<in> get_arr_pos b ` set ks then None else arr (destroy_at k b) ! p)"
    using Cons.IH [OF l] g by simp
  also have "\<dots> = (if p \<in> get_arr_pos b ` set (k # ks) then None else arr b ! p)"
    using Cons.prems by (auto simp: destroy_at_def nth_list_update)
  finally show ?case .
qed

lemma clear_all_raw:
  assumes "wf b"
  shows "set (arr (clear b)) \<subseteq> {None}"
proof -
  have len: "length (arr (clear b)) = cap b"
    using assms by (simp add: clear_def length_arr_fold_destroy_at wf_def shape_def)
  have "arr (clear b) ! p = None" if p: "p < cap b" for p
  proof (cases "arr b ! p = None")
    case True
    then show ?thesis
      using p assms
      by (simp add: clear_def nth_arr_fold_destroy_at wf_def shape_def)
  next
    case False
    from assms have "invariant b" by (simp add: wf_def)
    with False p obtain i where "i < sz b" "p = (head b + i) mod cap b"
      unfolding invariant_def by auto
    then have "p \<in> get_arr_pos b ` set [begin_cb b ..< end_cb b]"
      by (auto simp: get_arr_pos_def begin_cb_def end_cb_def)
    then show ?thesis
      using p assms
      by (simp add: clear_def nth_arr_fold_destroy_at wf_def shape_def)
  qed
  then show ?thesis
    using len by (auto simp: in_set_conv_nth)
qed

lemma sz_fold_apply_op:
  "admissible ops (sz b) \<Longrightarrow>
   sz (fold apply_op ops b) + length (filter (\<lambda>x. \<not> is_push x) ops)
     = sz b + length (filter is_push ops)"
proof (induction ops arbitrary: b)
  case Nil
  then show ?case by simp
next
  case (Cons x ops)
  show ?case
  proof (cases x)
    case (PushBack v)
    with Cons.prems have "admissible ops (sz (push_back v b))"
      by (simp add: sz_push_back)
    from Cons.IH [OF this] show ?thesis
      using PushBack by (simp add: sz_push_back)
  next
    case (PushFront v)
    with Cons.prems have "admissible ops (sz (push_front v b))"
      by (simp add: sz_push_front)
    from Cons.IH [OF this] show ?thesis
      using PushFront by (simp add: sz_push_front)
  next
    case PopBack
    with Cons.prems have "admissible ops (sz (pop_back b))" and "0 < sz b"
      by (simp_all add: sz_pop_back)
    from Cons.IH [OF this(1)] this(2) show ?thesis
      using PopBack by (simp add: sz_pop_back)
  next
    case PopFront
    with Cons.prems have "admissible ops (sz (pop_front b))" and "0 < sz b"
      by (simp_all add: sz_pop_front)
    from Cons.IH [OF this(1)] this(2) show ?thesis
      using PopFront by (simp add: sz_pop_front)
  qed
qed

text \<open>
  What the removals and \<^verbatim>\<open>clear\<close> do on every state. \<^verbatim>\<open>pop_back\<close>, \<^verbatim>\<open>pop_front\<close> and
  \<^verbatim>\<open>clear\<close> leave \<^verbatim>\<open>capacity()\<close> as it is; \<^verbatim>\<open>clear()\<close> resets the size and \<open>head\<close> to 0
  and runs the destructor on the slots \<open>(head + i) mod cap\<close> for \<open>i < sz\<close>, leaving the
  other slots as they are, so that on a well-formed buffer no slot of the block holds
  an object; after any sequence of pushes and pops at either end that starts from a
  default-constructed buffer and never pops an empty buffer, \<^verbatim>\<open>size()\<close> is the number of
  pushes minus the number of pops.
\<close>

lemma pop_clear_effect:
  "capacity (pop_back b) = capacity b \<and> capacity (pop_front b) = capacity b \<and>
   capacity (clear b) = capacity b \<and>
   size_cb (clear b) = 0 \<and> head (clear b) = 0 \<and>
   (\<forall>p < length (arr b).
      arr (clear b) ! p = (if p \<in> get_arr_pos b ` {0 ..< sz b} then None else arr b ! p)) \<and>
   (wf b \<longrightarrow> set (arr (clear b)) \<subseteq> {None}) \<and>
   (admissible ops 0 \<longrightarrow>
      length (filter (\<lambda>x. \<not> is_push x) ops) \<le> length (filter is_push ops) \<and>
      size_cb (fold apply_op ops circular_buffer_init)
        = length (filter is_push ops) - length (filter (\<lambda>x. \<not> is_push x) ops))"
proof (intro conjI impI allI)
  show "capacity (pop_back b) = capacity b"
    by (simp add: capacity_def cap_pop_back)
  show "capacity (pop_front b) = capacity b"
    by (simp add: capacity_def cap_pop_front)
  show "capacity (clear b) = capacity b"
    by (simp add: capacity_def cap_clear)
  show "size_cb (clear b) = 0"
    by (simp add: size_cb_def sz_clear)
  show "head (clear b) = 0"
    by (rule head_clear)
  show "set (arr (clear b)) \<subseteq> {None}" if "wf b"
    using that by (rule clear_all_raw)
  show "arr (clear b) ! p = (if p \<in> get_arr_pos b ` {0 ..< sz b} then None else arr b ! p)"
    if "p < length (arr b)" for p
    using nth_arr_fold_destroy_at [OF that, of "[begin_cb b ..< end_cb b]"]
    by (simp add: clear_def begin_cb_def end_cb_def)
next
  assume "admissible ops 0"
  then have "admissible ops (sz (circular_buffer_init :: 'b circular_buffer))"
    by (simp add: circular_buffer_init_def)
  from sz_fold_apply_op [OF this]
  have e: "sz (fold apply_op ops (circular_buffer_init :: 'b circular_buffer))
             + length (filter (\<lambda>x. \<not> is_push x) ops) = length (filter is_push ops)"
    by (simp add: circular_buffer_init_def)
  then show "length (filter (\<lambda>x. \<not> is_push x) ops) \<le> length (filter is_push ops)"
    by simp
  from e show "size_cb (fold apply_op ops circular_buffer_init)
        = length (filter is_push ops) - length (filter (\<lambda>x. \<not> is_push x) ops)"
    by (simp add: size_cb_def)
qed

lemma pop_clear_effect_example:
  "(let b = \<lparr>head = 4, sz = 4, cap = 6, arr = [Some 1, Some 2, None, None, Some 9, Some (8::nat)]\<rparr>;
        ops = [PushBack 1, PushFront 2, PopBack, PushBack (3::nat), PopFront]
    in wf b \<and> set (arr (clear b)) \<subseteq> {None} \<and>
       4 < length (arr b) \<and> 4 \<in> get_arr_pos b ` {0 ..< sz b} \<and> arr (clear b) ! 4 = None \<and>
       capacity (pop_back b) = 6 \<and>
       admissible ops 0 \<and> size_cb (fold apply_op ops circular_buffer_init) = 3 - 2)"
proof -
  let ?b = "\<lparr>head = 4, sz = 4, cap = 6, arr = [Some 1, Some 2, None, None, Some 9, Some (8::nat)]\<rparr>"
  let ?ops = "[PushBack 1, PushFront 2, PopBack, PushBack (3::nat), PopFront]"
  have 1: "wf ?b"
    by (simp add: wf_def shape_def invariant_def atLeastLessThan_upt upt_conv_Cons)
  have 2: "admissible ?ops 0" by simp
  have 4: "capacity ?b = 6" by (simp add: capacity_def)
  note r = pop_clear_effect [of ?b ?ops]
  have 5: "set (arr (clear ?b)) \<subseteq> {None}" using r 1 by blast
  have p: "length (filter is_push ?ops) = 3" by simp
  have q: "length (filter (\<lambda>x. \<not> is_push x) ?ops) = 2" by simp
  have "size_cb (fold apply_op ?ops (circular_buffer_init :: nat circular_buffer))
      = length (filter is_push ?ops) - length (filter (\<lambda>x. \<not> is_push x) ?ops)" using r 2 by blast
  then have 7: "size_cb (fold apply_op ?ops (circular_buffer_init :: nat circular_buffer)) = 3 - 2"
    unfolding p q .
  have "capacity (pop_back ?b) = capacity ?b" using r by blast
  then have 8: "capacity (pop_back ?b) = 6" unfolding 4 .
  have 9: "4 < length (arr ?b)" by simp
  have "get_arr_pos ?b 0 = 4" by (simp add: get_arr_pos_def)
  then have 10: "4 \<in> get_arr_pos ?b ` {0 ..< sz ?b}" by force
  have "\<forall>p < length (arr ?b).
      arr (clear ?b) ! p = (if p \<in> get_arr_pos ?b ` {0 ..< sz ?b} then None else arr ?b ! p)"
    using r by blast
  then have 11: "arr (clear ?b) ! 4 = None" using 9 10 by presburger
  show ?thesis
    unfolding Let_def using 1 2 5 7 8 9 10 11 by blast
qed

text \<open>
  Claim C9 fails in its second part, for a buffer on which \<^verbatim>\<open>push_back\<close> has constructed
  an element outside the live range. After \<^verbatim>\<open>push_back(1); pop_front(); push_back(2)\<close> on
  a default-constructed buffer, \<open>head\<close> is 1, the size is 1 and the only element, 2, is
  in slot 0. \<^verbatim>\<open>clear()\<close> runs the destructor on slot \<open>(head + 0) mod cap = 1\<close>, which
  holds no object, and resets the size and \<open>head\<close>: the element 2 is never destroyed,
  slot 0 still holds it in a buffer of size 0.
\<close>

theorem clear_failing:
  "push_back 2 (pop_front (push_back (1::nat) circular_buffer_init))
     = \<lparr>head = 1, sz = 1, cap = 3, arr = [Some 2, None, None]\<rparr> \<and>
   clear (push_back 2 (pop_front (push_back (1::nat) circular_buffer_init)))
     = \<lparr>head = 0, sz = 0, cap = 3, arr = [Some 2, None, None]\<rparr>"
  by code_simp

section \<open>Iterators\<close>

lemma sint_small:
  fixes a :: "'a::len word"
  assumes "unat a < 2 ^ (LENGTH('a) - 1)"
  shows "sint a = int (unat a)"
proof -
  have "int (unat a) < int (2 ^ (LENGTH('a) - 1))"
    using assms by (simp only: of_nat_less_iff)
  then have "uint a < 2 ^ (LENGTH('a) - 1)"
    by (simp only: uint_nat of_nat_power of_nat_numeral)
  moreover have "- (2 ^ (LENGTH('a) - 1)) \<le> uint a"
    by (rule order_trans [of _ 0]) simp_all
  ultimately have e: "signed_take_bit (LENGTH('a) - 1) (uint a) = uint a"
    by (rule signed_take_bit_int_eq_self [rotated])
  have "sint a = signed_take_bit (LENGTH('a) - 1) (uint a)"
    unfolding One_nat_def by (rule sint_uint)
  also have "\<dots> = uint a" by (rule e)
  also have "\<dots> = int (unat a)" by (rule uint_nat)
  finally show ?thesis .
qed


lemma sint_of_nat_32:
  assumes "r < 2 ^ 31"
  shows "sint (word_of_nat r :: 32 word) = int r"
proof -
  have l: "LENGTH(32) - 1 = 31" by simp
  have "(2::nat) ^ 31 \<le> 2 ^ LENGTH(32)" by (rule power_increasing) simp_all
  then have "r < 2 ^ LENGTH(32)" using assms by (rule less_le_trans [rotated])
  then have u: "unat (word_of_nat r :: 32 word) = r"
    by (simp only: unat_of_nat mod_less)
  have "unat (word_of_nat r :: 32 word) < 2 ^ (LENGTH(32) - 1)"
    using assms by (simp only: u l)
  from sint_small [OF this] show ?thesis by (simp only: u)
qed

text \<open>
  Where the model's \<open>get_arr_pos\<close> on natural numbers is the \<^verbatim>\<open>int\<close> the source returns.
\<close>

lemma get_arr_pos_exact:
  assumes "0 < cap b" "cap b \<le> 2 ^ 31" "head b + index < 2 ^ 64"
  shows "it_slot b (word_of_nat index) = Some (int (get_arr_pos b index))"
proof -
  let ?r = "(head b + index) mod cap b"
  define W :: nat where "W = 2 ^ 64"
  have hw: "head b + index < W" using assms(3) by (simp only: W_def)
  then have "index < W" by simp
  then have "index mod W = index" by (rule mod_less)
  then have u: "unat (word_of_nat index :: 64 word) = index"
    by (simp only: unat_of_nat W_def) simp
  have nw: "(head b + index) mod 2 ^ 64 = head b + index"
    using assms(3) by (rule mod_less)
  have "?r < cap b" using assms(1) by simp
  then have "?r < 2 ^ 31" using assms(2) by (rule less_le_trans)
  then have si: "sint (word_of_nat ?r :: 32 word) = int ?r" by (rule sint_of_nat_32)
  show ?thesis
    using assms(1) by (simp only: it_slot_def u nw si get_arr_pos_def) simp
qed






section \<open>Growth under a throwing copy constructor\<close>

text \<open>When no copy throws, the calls end as the functions of the storage core say.\<close>

lemma copy_run_no_throw:
  "copy_run never_throws b ks dest c
     = Returns (Allocated (fold (\<lambda>i d. d[i - head b := arr b ! i]) ks dest)) (c + length ks)"
  by (induction ks arbitrary: dest c) (simp_all add: never_throws_def)

lemma copy_run_wrapped_no_throw:
  "copy_run_wrapped never_throws b h ks (Allocated dest) c
     = Returns (Allocated (fold (\<lambda>i d. d[i + h := arr b ! i]) ks dest)) (c + length ks)"
  by (induction ks arbitrary: dest c) (simp_all add: never_throws_def)

lemma copyToArray_exc_no_throw:
  "\<exists>c'. copyToArray_exc never_throws b dest c = Returns (Allocated (copyToArray b dest)) c'"
  by (simp add: copyToArray_exc_def copyToArray_def Let_def copy_run_no_throw
        copy_run_wrapped_no_throw del: upt_Suc)

lemma increase_cap_exc_no_throw:
  "\<exists>c'. increase_cap_exc never_throws n b c = Normal (increase_cap n b) c'"
proof (cases "cap b \<le> n")
  case True
  obtain c' where
    "copyToArray_exc never_throws b (replicate (n + 1) None) c
       = Returns (Allocated (copyToArray b (replicate (n + 1) None))) c'"
    using copyToArray_exc_no_throw by blast
  then show ?thesis
    using True by (simp add: increase_cap_exc_def increase_cap_def Let_def del: replicate_Suc)
next
  case False
  then show ?thesis by (simp add: increase_cap_exc_def increase_cap_def)
qed

lemma reserve_exc_no_throw:
  "\<exists>c'. reserve_exc never_throws n b c = Normal (reserve n b) c'"
  by (simp add: reserve_exc_def reserve_def increase_cap_exc_no_throw)

lemma ensure_cap_exc_no_throw:
  "\<exists>c'. ensure_cap_exc never_throws b c = Normal (ensure_cap b) c'"
  by (simp add: ensure_cap_exc_def ensure_cap_def increase_cap_exc_no_throw)

lemma push_back_exc_no_throw:
  "\<exists>c'. push_back_exc never_throws v b c = Normal (push_back v b) c'"
proof -
  obtain c1 where "ensure_cap_exc never_throws b (c + 1) = Normal (ensure_cap b) c1"
    using ensure_cap_exc_no_throw by blast
  then show ?thesis
    by (simp add: push_back_exc_def push_back_def Let_def never_throws_def)
qed

text \<open>
  Claim C2 (strong guarantee and no leak when a copy throws during growth) fails on the
  code. (1) \<^verbatim>\<open>reserve(5)\<close> on \<open>[1]\<close> with the first copy throwing: the exception
  propagates and the buffer is unchanged, but the handler releases the new block only
  if \<open>i > head\<close>, so the block stays allocated. (2) \<^verbatim>\<open>reserve(8)\<close> on the wrapped
  buffer \<open>[9, 8, 1, 2]\<close> (\<open>head = 4\<close>, capacity 6) with the third copy throwing: the
  handler of the last loop does not rethrow, the call returns normally and the buffer
  has capacity 9 and a raw slot at logical index 2. (3) The same call with the fourth
  copy throwing: the handler destroys only the copies made by the last loop, releases
  the block with the copies of 9 and 8 alive, and the released block becomes \<^verbatim>\<open>arr\<close>.
  (4) \<^verbatim>\<open>push_back(3)\<close> on \<open>[1, 2]\<close> with capacity 3, the copy into the new slot
  throwing after the growth: the exception propagates with the capacity at 6.
\<close>

theorem growth_fault_failing:
  "reserve_exc (throws_at 0) 5 \<lparr>head = 0, sz = 1, cap = 3, arr = [Some (1::nat), None, None]\<rparr> 0
     = Propagates \<lparr>head = 0, sz = 1, cap = 3, arr = [Some 1, None, None]\<rparr>
         [Allocated [None, None, None, None, None, None]] 1 \<and>
   reserve_exc (throws_at 2) 8
       \<lparr>head = 4, sz = 4, cap = 6, arr = [Some 1, Some 2, None, None, Some 9, Some (8::nat)]\<rparr> 0
     = Normal \<lparr>head = 0, sz = 4, cap = 9,
               arr = [Some 9, Some 8, None, Some 2, None, None, None, None, None]\<rparr> 4 \<and>
   copyToArray_exc (throws_at 3)
       \<lparr>head = 4, sz = 4, cap = 6, arr = [Some 1, Some 2, None, None, Some 9, Some (8::nat)]\<rparr>
       (replicate 9 None) 0
     = Returns (Released [Some 9, Some 8, None, None, None, None, None, None, None]) 4 \<and>
   reserve_exc (throws_at 3) 8
       \<lparr>head = 4, sz = 4, cap = 6, arr = [Some 1, Some 2, None, None, Some 9, Some (8::nat)]\<rparr> 0
     = Use_after_free \<and>
   push_back_exc (throws_at 3) 3 \<lparr>head = 0, sz = 2, cap = 3, arr = [Some (1::nat), Some 2, None]\<rparr> 0
     = Propagates \<lparr>head = 0, sz = 2, cap = 6, arr = [Some 1, Some 2, None, None, None, None]\<rparr>
         [] 4"
  by code_simp

section \<open>The element sequence after an operation at either end\<close>

text \<open>
  What a caller reads at each logical index below the capacity after \<^verbatim>\<open>pop_front\<close>,
  \<^verbatim>\<open>pop_back\<close>, \<^verbatim>\<open>push_front\<close>, \<^verbatim>\<open>push_back\<close> and a swap of two elements, and the
  element sequence that follows from it. For \<^verbatim>\<open>push_back\<close> the buffer must not be empty
  with a \<open>head\<close> other than 0 at the moment the element is constructed.
\<close>

lemma shape_pos:
  assumes "shape b" "0 < sz b"
  shows "0 < cap b" "sz b < cap b" "head b < cap b" "length (arr b) = cap b"
  using assms by (auto simp: shape_def split: if_splits)

lemma slot_neq:
  fixes h c i j :: nat
  assumes "i < c" "j < c" "i \<noteq> j"
  shows "(h + i) mod c \<noteq> (h + j) mod c"
  using assms mod_add_inj by blast

lemma contents_eqI:
  assumes "length ys = sz b" "\<And>k. k < sz b \<Longrightarrow> at_cb b k = ys ! k"
  shows "contents b = ys"
  using assms by (intro nth_equalityI) (simp_all add: length_contents nth_contents)

lemma ensure_cap_props:
  assumes "shape b"
  shows "shape (ensure_cap b)" "contents (ensure_cap b) = contents b"
    "sz (ensure_cap b) = sz b" "sz b + 1 < cap (ensure_cap b)"
proof -
  show "shape (ensure_cap b)"
    using assms by (simp add: ensure_cap_def shape_increase_cap)
  show "contents (ensure_cap b) = contents b"
    using assms by (simp add: ensure_cap_def contents_increase_cap)
  show "sz (ensure_cap b) = sz b" by (rule sz_ensure_cap)
  show "sz b + 1 < cap (ensure_cap b)"
    using assms by (auto simp: cap_ensure_cap shape_def split: if_splits)
qed

lemma invariant_ensure_cap: "shape b \<Longrightarrow> invariant b \<Longrightarrow> invariant (ensure_cap b)"
  by (simp add: ensure_cap_def invariant_increase_cap)

lemma head_ensure_cap:
  "head (ensure_cap b) = (if cap b \<le> sz b + 1 then 0 else head b)"
  by (simp add: ensure_cap_def increase_cap_grow)

lemma pop_front_at:
  assumes "shape b" "0 < sz b" "k < cap b"
  shows "at_cb (pop_front b) k = (if k + 1 < cap b then at_cb b (k + 1) else None)"
proof -
  note p = shape_pos [OF assms(1,2)]
  have e: "((head b + 1) mod cap b + k) mod cap b = (head b + (k + 1)) mod cap b"
    by (simp add: mod_add_left_eq add.assoc)
  have at: "at_cb (pop_front b) k = (arr b)[head b := None] ! ((head b + (k + 1)) mod cap b)"
  proof -
    have "at_cb (pop_front b) k
            = (arr b)[head b := None] ! (((head b + 1) mod cap b + k) mod cap b)"
      by (simp add: at_cb_def pop_front_def)
    then show ?thesis by (simp only: e)
  qed
  show ?thesis
  proof (cases "k + 1 < cap b")
    case True
    have "(head b + (k + 1)) mod cap b \<noteq> (head b + 0) mod cap b"
      using True p by (intro slot_neq) simp_all
    then have n: "head b \<noteq> (head b + (k + 1)) mod cap b" using p by simp
    have "(arr b)[head b := None] ! ((head b + (k + 1)) mod cap b)
            = arr b ! ((head b + (k + 1)) mod cap b)"
      using n by (rule nth_list_update_neq)
    then show ?thesis using True at by (simp add: at_cb_def)
  next
    case False
    then have "k + 1 = cap b" using assms(3) by simp
    then have "(head b + (k + 1)) mod cap b = head b" using p by simp
    then show ?thesis using False at p by simp
  qed
qed

lemma pop_front_contents:
  assumes "shape b" "0 < sz b"
  shows "contents (pop_front b) = tl (contents b)" "shape (pop_front b)"
proof -
  note p = shape_pos [OF assms]
  show "shape (pop_front b)"
    using p by (simp add: shape_def pop_front_def)
  show "contents (pop_front b) = tl (contents b)"
  proof (rule contents_eqI)
    show "length (tl (contents b)) = sz (pop_front b)"
      by (simp add: length_contents sz_pop_front)
  next
    fix k
    assume "k < sz (pop_front b)"
    then have k: "k + 1 < sz b" by (simp add: sz_pop_front)
    then have "at_cb (pop_front b) k = at_cb b (k + 1)"
      using pop_front_at [OF assms, of k] p by simp
    also have "\<dots> = tl (contents b) ! k"
      using k by (simp add: nth_tl length_contents nth_contents)
    finally show "at_cb (pop_front b) k = tl (contents b) ! k" .
  qed
qed

lemma tail_slot:
  assumes "shape b" "0 < sz b"
  shows "tail b = (head b + (sz b - 1)) mod cap b"
proof -
  have "tail b = (head b + sz b + cap b - 1) mod cap b"
    using assms by (simp add: tail_def)
  also have "head b + sz b + cap b - 1 = head b + (sz b - 1) + cap b"
    using assms by simp
  also have "(head b + (sz b - 1) + cap b) mod cap b = (head b + (sz b - 1)) mod cap b"
    by simp
  finally show ?thesis .
qed

lemma pop_back_at:
  assumes "shape b" "0 < sz b" "k < cap b"
  shows "at_cb (pop_back b) k = (if k = sz b - 1 then None else at_cb b k)"
proof -
  note p = shape_pos [OF assms(1,2)]
  let ?T = "(head b + (sz b - 1)) mod cap b"
  have at: "at_cb (pop_back b) k = (arr b)[?T := None] ! ((head b + k) mod cap b)"
    by (simp add: at_cb_def pop_back_def tail_slot [OF assms(1,2)])
  show ?thesis
  proof (cases "k = sz b - 1")
    case True
    then show ?thesis using at p by simp
  next
    case False
    have "(head b + (sz b - 1)) mod cap b \<noteq> (head b + k) mod cap b"
      using False assms(3) p by (intro slot_neq) simp_all
    then have "(arr b)[?T := None] ! ((head b + k) mod cap b) = arr b ! ((head b + k) mod cap b)"
      by (rule nth_list_update_neq)
    then show ?thesis using False at by (simp add: at_cb_def)
  qed
qed

lemma pop_back_contents:
  assumes "shape b" "0 < sz b"
  shows "contents (pop_back b) = butlast (contents b)" "shape (pop_back b)"
proof -
  note p = shape_pos [OF assms]
  show "shape (pop_back b)"
    using p by (simp add: shape_def pop_back_def)
  show "contents (pop_back b) = butlast (contents b)"
  proof (rule contents_eqI)
    show "length (butlast (contents b)) = sz (pop_back b)"
      by (simp add: length_contents sz_pop_back)
  next
    fix k
    assume "k < sz (pop_back b)"
    then have k: "k < sz b - 1" by (simp add: sz_pop_back)
    then have "at_cb (pop_back b) k = at_cb b k"
      using pop_back_at [OF assms, of k] p by simp
    also have "\<dots> = butlast (contents b) ! k"
      using k by (simp add: nth_butlast length_contents nth_contents)
    finally show "at_cb (pop_back b) k = butlast (contents b) ! k" .
  qed
qed

lemma push_front_at:
  assumes "shape b" "k < cap (ensure_cap b)"
  shows "at_cb (push_front v b) k
           = (if k = 0 then Some v
              else if sz b = 0 then at_cb (ensure_cap b) k else at_cb (ensure_cap b) (k - 1))"
    and "shape (push_front v b)"
proof -
  let ?b1 = "ensure_cap b"
  note e = ensure_cap_props [OF assms(1)]
  define c where "c = cap ?b1"
  define h where "h = head ?b1"
  define h' where "h' = (if \<not> empty_cb ?b1 then (h + c - 1) mod c else h)"
  have room: "sz b + 1 < c" using e(4) by (simp add: c_def)
  then have cpos: "0 < c" by simp
  have hc: "h < c" using e(1) cpos by (simp add: shape_def c_def h_def)
  have len: "length (arr ?b1) = c" using e(1) by (simp add: shape_def c_def)
  have h'c: "h' < c" using hc cpos by (simp add: h'_def)
  have kc: "k < c" using assms(2) by (simp add: c_def)
  have pf: "push_front v b = ?b1\<lparr>head := h', arr := (arr ?b1)[h' := Some v], sz := sz b + 1\<rparr>"
    by (simp add: push_front_def Let_def h'_def h_def c_def e(3))
  show "shape (push_front v b)"
    using room h'c len by (simp add: pf shape_def c_def)
  have at: "at_cb (push_front v b) k = (arr ?b1)[h' := Some v] ! ((h' + k) mod c)"
    by (simp add: pf at_cb_def c_def)
  show "at_cb (push_front v b) k
           = (if k = 0 then Some v
              else if sz b = 0 then at_cb ?b1 k else at_cb ?b1 (k - 1))"
  proof (cases "k = 0")
    case True
    then show ?thesis using at h'c len by simp
  next
    case False
    have "(h' + k) mod c \<noteq> (h' + 0) mod c"
      using False kc by (intro slot_neq) simp_all
    then have ne: "h' \<noteq> (h' + k) mod c" using h'c by simp
    have at': "at_cb (push_front v b) k = arr ?b1 ! ((h' + k) mod c)"
      unfolding at using ne by (rule nth_list_update_neq)
    show ?thesis
    proof (cases "sz b = 0")
      case True
      then have "h' = h" by (simp add: h'_def empty_cb_def e(3))
      then show ?thesis using False True at' by (simp add: at_cb_def h_def c_def)
    next
      case nonempty: False
      then have "h' = (h + c - 1) mod c" by (simp add: h'_def empty_cb_def e(3))
      then have "(h' + k) mod c = ((h + c - 1) mod c + k) mod c"
        by (simp only:)
      also have "\<dots> = ((h + c - 1) + k) mod c"
        by (rule mod_add_left_eq)
      also have "(h + c - 1) + k = (h + (k - 1)) + c" using cpos False by simp
      also have "((h + (k - 1)) + c) mod c = (h + (k - 1)) mod c" by simp
      finally have "(h' + k) mod c = (h + (k - 1)) mod c" .
      then show ?thesis using False nonempty at' by (simp add: at_cb_def h_def c_def)
    qed
  qed
qed

lemma push_front_contents:
  assumes "shape b"
  shows "contents (push_front v b) = Some v # contents b" "shape (push_front v b)"
proof -
  note e = ensure_cap_props [OF assms]
  have z: "0 < cap (ensure_cap b)" using e(4) by simp
  show "shape (push_front v b)" by (rule push_front_at(2) [OF assms z])
  show "contents (push_front v b) = Some v # contents b"
  proof (rule contents_eqI)
    show "length (Some v # contents b) = sz (push_front v b)"
      by (simp add: length_contents sz_push_front)
  next
    fix k
    assume "k < sz (push_front v b)"
    then have k: "k < sz b + 1" by (simp add: sz_push_front)
    then have kc: "k < cap (ensure_cap b)" using e(4) by simp
    show "at_cb (push_front v b) k = (Some v # contents b) ! k"
    proof (cases k)
      case 0
      then show ?thesis using push_front_at(1) [OF assms kc, of v] by simp
    next
      case (Suc j)
      then have j: "j < sz b" using k by simp
      then have "at_cb (push_front v b) k = at_cb (ensure_cap b) j"
        using push_front_at(1) [OF assms kc, of v] Suc by simp
      also have "\<dots> = contents (ensure_cap b) ! j"
        using j by (simp add: nth_contents e(3))
      also have "\<dots> = (Some v # contents b) ! k"
        using Suc by (simp add: e(2))
      finally show ?thesis .
    qed
  qed
qed

lemma push_back_at:
  assumes "shape b" "sz b = 0 \<longrightarrow> head (ensure_cap b) = 0" "k < cap (ensure_cap b)"
  shows "at_cb (push_back v b) k = (if k = sz b then Some v else at_cb (ensure_cap b) k)"
    and "shape (push_back v b)"
proof -
  let ?b1 = "ensure_cap b"
  note e = ensure_cap_props [OF assms(1)]
  define c where "c = cap ?b1"
  define h where "h = head ?b1"
  define p where "p = (if empty_cb ?b1 then 0 else (tail ?b1 + 1) mod c)"
  have room: "sz b + 1 < c" using e(4) by (simp add: c_def)
  then have cpos: "0 < c" by simp
  have hc: "h < c" using e(1) cpos by (simp add: shape_def c_def h_def)
  have len: "length (arr ?b1) = c" using e(1) by (simp add: shape_def c_def)
  have kc: "k < c" using assms(3) by (simp add: c_def)
  have pb: "push_back v b = ?b1\<lparr>arr := (arr ?b1)[p := Some v], sz := sz b + 1\<rparr>"
    by (simp add: push_back_def Let_def p_def c_def e(3))
  show "shape (push_back v b)"
    using room hc len by (simp add: pb shape_def c_def h_def)
  have p_eq: "p = (h + sz b) mod c"
  proof (cases "sz b = 0")
    case True
    then show ?thesis using assms(2) hc by (simp add: p_def empty_cb_def e(3) h_def)
  next
    case False
    then have pos: "0 < sz ?b1" by (simp add: e(3))
    have "tail ?b1 = (h + (sz b - 1)) mod c"
      using tail_slot [OF e(1) pos] by (simp add: h_def c_def e(3))
    then have "(tail ?b1 + 1) mod c = ((h + (sz b - 1)) mod c + 1) mod c"
      by (simp only:)
    also have "\<dots> = ((h + (sz b - 1)) + 1) mod c"
      by (rule mod_add_left_eq)
    also have "(h + (sz b - 1)) + 1 = h + sz b" using False by simp
    finally show ?thesis using False by (simp add: p_def empty_cb_def e(3))
  qed
  have pc: "p < c" using cpos by (simp add: p_eq)
  have at: "at_cb (push_back v b) k = (arr ?b1)[p := Some v] ! ((h + k) mod c)"
    by (simp add: pb at_cb_def c_def h_def)
  show "at_cb (push_back v b) k = (if k = sz b then Some v else at_cb ?b1 k)"
  proof (cases "k = sz b")
    case True
    then show ?thesis using at pc len by (simp add: p_eq)
  next
    case False
    have "(h + sz b) mod c \<noteq> (h + k) mod c"
      using False kc room by (intro slot_neq) simp_all
    then have ne: "p \<noteq> (h + k) mod c" by (simp add: p_eq)
    have "at_cb (push_back v b) k = arr ?b1 ! ((h + k) mod c)"
      unfolding at using ne by (rule nth_list_update_neq)
    then show ?thesis using False by (simp add: at_cb_def h_def c_def)
  qed
qed

lemma push_back_contents:
  assumes "shape b" "sz b = 0 \<longrightarrow> head (ensure_cap b) = 0"
  shows "contents (push_back v b) = contents b @ [Some v]" "shape (push_back v b)"
proof -
  note e = ensure_cap_props [OF assms(1)]
  have z: "0 < cap (ensure_cap b)" using e(4) by simp
  show "shape (push_back v b)" by (rule push_back_at(2) [OF assms z])
  show "contents (push_back v b) = contents b @ [Some v]"
  proof (rule contents_eqI)
    show "length (contents b @ [Some v]) = sz (push_back v b)"
      by (simp add: length_contents sz_push_back)
  next
    fix k
    assume "k < sz (push_back v b)"
    then have k: "k < sz b + 1" by (simp add: sz_push_back)
    then have kc: "k < cap (ensure_cap b)" using e(4) by simp
    note at = push_back_at(1) [OF assms kc, of v]
    show "at_cb (push_back v b) k = (contents b @ [Some v]) ! k"
    proof (cases "k = sz b")
      case True
      then show ?thesis using at by (simp add: nth_append length_contents)
    next
      case False
      then have j: "k < sz b" using k by simp
      have "at_cb (push_back v b) k = contents (ensure_cap b) ! k"
        using at False j by (simp add: nth_contents e(3))
      also have "\<dots> = (contents b @ [Some v]) ! k"
        using j by (simp add: e(2) nth_append length_contents)
      finally show ?thesis .
    qed
  qed
qed

lemma swap_at_at:
  assumes "shape b" "p < sz b" "q < sz b" "k < cap b"
  shows "at_cb (swap_at p q b) k
           = (if k = q then at_cb b p else if k = p then at_cb b q else at_cb b k)"
proof -
  have pos: "0 < sz b" using assms(2) by simp
  note s = shape_pos [OF assms(1) pos]
  let ?P = "(head b + p) mod cap b" and ?Q = "(head b + q) mod cap b"
  let ?K = "(head b + k) mod cap b"
  have sw: "swap_at p q b = b\<lparr>arr := (arr b)[?P := arr b ! ?Q, ?Q := arr b ! ?P]\<rparr>"
    by (simp add: swap_at_def get_arr_pos_def deref_def)
  have kc: "k < cap b" "p < cap b" "q < cap b" using assms(2,3,4) s(2) by simp_all
  have lenP: "?P < length (arr b)" "?Q < length (arr b)" using s(1,4) by simp_all
  have "at_cb (swap_at p q b) k = (arr b)[?P := arr b ! ?Q, ?Q := arr b ! ?P] ! ?K"
    by (simp add: sw at_cb_def)
  also have "\<dots> = (if k = q then arr b ! ?P else if k = p then arr b ! ?Q else arr b ! ?K)"
  proof (cases "k = q")
    case True
    then show ?thesis using lenP by simp
  next
    case nq: False
    then have "?Q \<noteq> ?K" using slot_neq [OF kc(3) kc(1), of "head b"] by simp
    then have 1: "(arr b)[?P := arr b ! ?Q, ?Q := arr b ! ?P] ! ?K
                    = (arr b)[?P := arr b ! ?Q] ! ?K"
      by (rule nth_list_update_neq)
    show ?thesis
    proof (cases "k = p")
      case True
      then show ?thesis using nq 1 lenP by simp
    next
      case False
      then have "?P \<noteq> ?K" using slot_neq [OF kc(2) kc(1), of "head b"] by simp
      then have "(arr b)[?P := arr b ! ?Q] ! ?K = arr b ! ?K"
        by (rule nth_list_update_neq)
      then show ?thesis using nq False 1 by simp
    qed
  qed
  finally show ?thesis by (simp add: at_cb_def)
qed

lemma swap_at_contents:
  assumes "shape b" "p < sz b" "q < sz b"
  shows "contents (swap_at p q b) = (contents b)[p := contents b ! q, q := contents b ! p]"
    "shape (swap_at p q b)" "sz (swap_at p q b) = sz b"
proof -
  have pos: "0 < sz b" using assms(2) by simp
  note s = shape_pos [OF assms(1) pos]
  show "shape (swap_at p q b)" using assms(1) by (simp add: swap_at_def shape_def)
  show "sz (swap_at p q b) = sz b" by (simp add: swap_at_def)
  show "contents (swap_at p q b) = (contents b)[p := contents b ! q, q := contents b ! p]"
  proof (rule contents_eqI)
    show "length ((contents b)[p := contents b ! q, q := contents b ! p]) = sz (swap_at p q b)"
      by (simp add: length_contents swap_at_def)
  next
    fix k
    assume "k < sz (swap_at p q b)"
    then have k: "k < sz b" by (simp add: swap_at_def)
    then have kc: "k < cap b" using s(2) by simp
    have "at_cb (swap_at p q b) k
            = (if k = q then at_cb b p else if k = p then at_cb b q else at_cb b k)"
      by (rule swap_at_at [OF assms kc])
    also have "\<dots> = (contents b)[p := contents b ! q, q := contents b ! p] ! k"
      using k assms(2,3)
      by (simp add: nth_list_update length_contents nth_contents)
    finally show "at_cb (swap_at p q b) k
        = (contents b)[p := contents b ! q, q := contents b ! p] ! k" .
  qed
qed

section \<open>Insertion and erasure\<close>

text \<open>
  Each shifting loop moves one element through the sequence by swaps of neighbours; a
  loop of \<^verbatim>\<open>erase(pos)\<close> is one of \<^verbatim>\<open>insert\<close> run to the first or to the last
  index.
\<close>

lemma swap_at_frame: "head (swap_at p q b) = head b" "cap (swap_at p q b) = cap b"
  by (simp_all add: swap_at_def)

lemma insert_up_contents:
  "shape b \<Longrightarrow> cur \<le> pos \<Longrightarrow> pos < sz b \<Longrightarrow>
   snd (insert_up b cur pos) = pos \<and> shape (fst (insert_up b cur pos)) \<and>
   sz (fst (insert_up b cur pos)) = sz b \<and>
   (\<forall>k < sz b. contents (fst (insert_up b cur pos)) ! k
      = (if cur \<le> k \<and> k < pos then contents b ! (k + 1)
         else if k = pos then contents b ! cur else contents b ! k))"
proof (induction b cur pos rule: insert_up.induct)
  case (1 b cur pos)
  show ?case
  proof (cases "cur < pos")
    case False
    then have "insert_up b cur pos = (b, cur)" by (subst insert_up.simps) simp
    then show ?thesis using False "1.prems" by auto
  next
    case True
    let ?b' = "swap_at cur (cur + 1) b"
    let ?xs = "contents b"
    have c1: "cur < sz b" and c2: "cur + 1 < sz b" using True "1.prems" by simp_all
    note sw = swap_at_contents [OF "1.prems"(1) c1 c2]
    have unf: "insert_up b cur pos = insert_up ?b' (cur + 1) pos"
      using True by (subst insert_up.simps) simp
    have ih: "snd (insert_up ?b' (cur + 1) pos) = pos \<and>
              shape (fst (insert_up ?b' (cur + 1) pos)) \<and>
              sz (fst (insert_up ?b' (cur + 1) pos)) = sz ?b' \<and>
              (\<forall>k < sz ?b'. contents (fst (insert_up ?b' (cur + 1) pos)) ! k
                 = (if cur + 1 \<le> k \<and> k < pos then contents ?b' ! (k + 1)
                    else if k = pos then contents ?b' ! (cur + 1) else contents ?b' ! k))"
      using "1.IH" [OF True sw(2)] True "1.prems" sw(3) by simp
    have nth: "contents (fst (insert_up b cur pos)) ! k
                 = (if cur \<le> k \<and> k < pos then ?xs ! (k + 1)
                    else if k = pos then ?xs ! cur else ?xs ! k)" if k: "k < sz b" for k
    proof -
      have "contents (fst (insert_up b cur pos)) ! k
              = (if cur + 1 \<le> k \<and> k < pos then contents ?b' ! (k + 1)
                 else if k = pos then contents ?b' ! (cur + 1) else contents ?b' ! k)"
        using ih k sw(3) unf by simp
      also have "\<dots> = (if cur \<le> k \<and> k < pos then ?xs ! (k + 1)
                    else if k = pos then ?xs ! cur else ?xs ! k)"
        using True c1 c2 k "1.prems"(3) sw(1)
        by (auto simp: length_contents nth_list_update)
      finally show ?thesis .
    qed
    show ?thesis
      using ih nth sw(3) unf by simp
  qed
qed

lemma insert_down_contents:
  "shape b \<Longrightarrow> pos \<le> cur \<Longrightarrow> cur < sz b \<Longrightarrow>
   snd (insert_down b cur pos) = pos \<and> shape (fst (insert_down b cur pos)) \<and>
   sz (fst (insert_down b cur pos)) = sz b \<and>
   (\<forall>k < sz b. contents (fst (insert_down b cur pos)) ! k
      = (if pos < k \<and> k \<le> cur then contents b ! (k - 1)
         else if k = pos then contents b ! cur else contents b ! k))"
proof (induction b cur pos rule: insert_down.induct)
  case (1 b cur pos)
  show ?case
  proof (cases "cur > pos")
    case False
    then have "insert_down b cur pos = (b, cur)" by (subst insert_down.simps) simp
    then show ?thesis using False "1.prems" by auto
  next
    case True
    let ?b' = "swap_at cur (cur - 1) b"
    let ?xs = "contents b"
    have c1: "cur < sz b" and c2: "cur - 1 < sz b" using True "1.prems" by simp_all
    note sw = swap_at_contents [OF "1.prems"(1) c1 c2]
    have unf: "insert_down b cur pos = insert_down ?b' (cur - 1) pos"
      using True by (subst insert_down.simps) simp
    have ih: "snd (insert_down ?b' (cur - 1) pos) = pos \<and>
              shape (fst (insert_down ?b' (cur - 1) pos)) \<and>
              sz (fst (insert_down ?b' (cur - 1) pos)) = sz ?b' \<and>
              (\<forall>k < sz ?b'. contents (fst (insert_down ?b' (cur - 1) pos)) ! k
                 = (if pos < k \<and> k \<le> cur - 1 then contents ?b' ! (k - 1)
                    else if k = pos then contents ?b' ! (cur - 1) else contents ?b' ! k))"
      using "1.IH" [OF True sw(2)] True "1.prems" sw(3) by simp
    have nth: "contents (fst (insert_down b cur pos)) ! k
                 = (if pos < k \<and> k \<le> cur then ?xs ! (k - 1)
                    else if k = pos then ?xs ! cur else ?xs ! k)" if k: "k < sz b" for k
    proof -
      have "contents (fst (insert_down b cur pos)) ! k
              = (if pos < k \<and> k \<le> cur - 1 then contents ?b' ! (k - 1)
                 else if k = pos then contents ?b' ! (cur - 1) else contents ?b' ! k)"
        using ih k sw(3) unf by simp
      also have "\<dots> = (if pos < k \<and> k \<le> cur then ?xs ! (k - 1)
                    else if k = pos then ?xs ! cur else ?xs ! k)"
        using True c1 c2 k sw(1)
        by (auto simp: length_contents nth_list_update)
      finally show ?thesis .
    qed
    show ?thesis
      using ih nth sw(3) unf by simp
  qed
qed


lemma insert_front_branch:
  assumes "shape b" "pos \<le> sz b" "int pos - int (begin_cb b) < int (end_cb b) - int pos"
  shows "contents (fst (insert_cb pos v b)) = take pos (contents b) @ Some v # drop pos (contents b)"
    "snd (insert_cb pos v b) = pos" "shape (fst (insert_cb pos v b))"
proof -
  let ?b1 = "push_front v b"
  let ?r = "insert_up ?b1 (begin_cb ?b1) pos"
  note pf = push_front_contents [OF assms(1), of v]
  have r: "insert_cb pos v b = ?r"
    using assms(3) by (simp add: insert_cb_def Let_def)
  have p1: "pos < sz ?b1" using assms(2) by (simp add: sz_push_front)
  from insert_up_contents [OF pf(2) _ p1, of 0]
  have iu: "snd ?r = pos" "shape (fst ?r)" "sz (fst ?r) = sz ?b1"
    "\<And>k. k < sz ?b1 \<Longrightarrow> contents (fst ?r) ! k
        = (if k < pos then contents ?b1 ! (k + 1)
           else if k = pos then contents ?b1 ! 0 else contents ?b1 ! k)"
    by (simp_all add: begin_cb_def)
  show "snd (insert_cb pos v b) = pos" using iu(1) r by simp
  show "shape (fst (insert_cb pos v b))" using iu(2) r by simp
  show "contents (fst (insert_cb pos v b)) = take pos (contents b) @ Some v # drop pos (contents b)"
  proof (rule nth_equalityI)
    show "length (contents (fst (insert_cb pos v b)))
            = length (take pos (contents b) @ Some v # drop pos (contents b))"
      using assms(2) iu(3) r by (simp add: length_contents sz_push_front)
  next
    fix k
    assume "k < length (contents (fst (insert_cb pos v b)))"
    then have k: "k < sz b + 1" using iu(3) r by (simp add: length_contents sz_push_front)
    then have "contents (fst ?r) ! k
        = (if k < pos then contents ?b1 ! (k + 1)
           else if k = pos then contents ?b1 ! 0 else contents ?b1 ! k)"
      using iu(4) by (simp add: sz_push_front)
    also have "\<dots> = (take pos (contents b) @ Some v # drop pos (contents b)) ! k"
      using k assms(2) pf(1)
      by (auto simp: nth_append length_contents nth_Cons' min_def)
    finally show "contents (fst (insert_cb pos v b)) ! k
        = (take pos (contents b) @ Some v # drop pos (contents b)) ! k"
      using r by simp
  qed
qed

lemma insert_back_branch:
  assumes "shape b" "pos \<le> sz b" "\<not> int pos - int (begin_cb b) < int (end_cb b) - int pos"
    "sz b = 0 \<longrightarrow> head (ensure_cap b) = 0"
  shows "contents (fst (insert_cb pos v b)) = take pos (contents b) @ Some v # drop pos (contents b)"
    "snd (insert_cb pos v b) = pos" "shape (fst (insert_cb pos v b))"
proof -
  let ?b1 = "push_back v b"
  let ?r = "insert_down ?b1 (sz b) pos"
  note pb = push_back_contents [OF assms(1,4), of v]
  have r: "insert_cb pos v b = ?r"
    using assms(3) by (simp add: insert_cb_def Let_def end_cb_def sz_push_back)
  have p1: "sz b < sz ?b1" by (simp add: sz_push_back)
  from insert_down_contents [OF pb(2) assms(2) p1]
  have iu: "snd ?r = pos" "shape (fst ?r)" "sz (fst ?r) = sz ?b1"
    "\<And>k. k < sz ?b1 \<Longrightarrow> contents (fst ?r) ! k
        = (if pos < k \<and> k \<le> sz b then contents ?b1 ! (k - 1)
           else if k = pos then contents ?b1 ! sz b else contents ?b1 ! k)"
    by simp_all
  show "snd (insert_cb pos v b) = pos" using iu(1) r by simp
  show "shape (fst (insert_cb pos v b))" using iu(2) r by simp
  show "contents (fst (insert_cb pos v b)) = take pos (contents b) @ Some v # drop pos (contents b)"
  proof (rule nth_equalityI)
    show "length (contents (fst (insert_cb pos v b)))
            = length (take pos (contents b) @ Some v # drop pos (contents b))"
      using assms(2) iu(3) r by (simp add: length_contents sz_push_back)
  next
    fix k
    assume "k < length (contents (fst (insert_cb pos v b)))"
    then have k: "k < sz b + 1" using iu(3) r by (simp add: length_contents sz_push_back)
    then have "contents (fst ?r) ! k
        = (if pos < k \<and> k \<le> sz b then contents ?b1 ! (k - 1)
           else if k = pos then contents ?b1 ! sz b else contents ?b1 ! k)"
      using iu(4) by (simp add: sz_push_back)
    also have "\<dots> = (take pos (contents b) @ Some v # drop pos (contents b)) ! k"
      using k assms(2) pb(1)
      by (auto simp: nth_append length_contents nth_Cons' min_def)
    finally show "contents (fst (insert_cb pos v b)) ! k
        = (take pos (contents b) @ Some v # drop pos (contents b)) ! k"
      using r by simp
  qed
qed


lemma swap_at_sym: "swap_at p q b = swap_at q p b"
proof (cases "get_arr_pos b p = get_arr_pos b q")
  case True
  then show ?thesis by (simp add: swap_at_def deref_def)
next
  case False
  then show ?thesis by (simp add: swap_at_def deref_def list_update_swap)
qed

lemma sz_swap_at: "sz (swap_at p q b) = sz b"
  by (simp add: swap_at_def)

lemma erase_down_eq: "erase_down b cur = fst (insert_down b cur 0)"
proof (induction b cur rule: erase_down.induct)
  case (1 b cur)
  show ?case
  proof (cases "cur > 0")
    case True
    then have "erase_down b cur = erase_down (swap_at (cur - 1) cur b) (cur - 1)"
      by (subst erase_down.simps) (simp add: begin_cb_def)
    also have "\<dots> = fst (insert_down (swap_at (cur - 1) cur b) (cur - 1) 0)"
      using "1.IH" True by (simp add: begin_cb_def)
    also have "\<dots> = fst (insert_down (swap_at cur (cur - 1) b) (cur - 1) 0)"
      by (simp only: swap_at_sym [of "cur - 1" cur])
    also have "\<dots> = fst (insert_down b cur 0)"
      using True by (subst (2) insert_down.simps) simp
    finally show ?thesis .
  next
    case False
    then show ?thesis
      by (subst erase_down.simps, subst insert_down.simps) (simp add: begin_cb_def)
  qed
qed

lemma erase_up_eq: "erase_up b cur = fst (insert_up b cur (sz b - 1))"
proof (induction b cur rule: erase_up.induct)
  case (1 b cur)
  show ?case
  proof (cases "cur < sz b - 1")
    case True
    then have "erase_up b cur = erase_up (swap_at (cur + 1) cur b) (cur + 1)"
      by (subst erase_up.simps) (simp add: end_cb_def)
    also have "\<dots> = fst (insert_up (swap_at (cur + 1) cur b) (cur + 1)
                            (sz (swap_at (cur + 1) cur b) - 1))"
      using "1.IH" True by (simp add: end_cb_def)
    also have "\<dots> = fst (insert_up (swap_at cur (cur + 1) b) (cur + 1) (sz b - 1))"
      by (simp only: swap_at_sym [of "cur + 1" cur] sz_swap_at)
    also have "\<dots> = fst (insert_up b cur (sz b - 1))"
      using True by (subst (2) insert_up.simps) simp
    finally show ?thesis .
  next
    case False
    then show ?thesis
      by (subst erase_up.simps, subst insert_up.simps) (simp add: end_cb_def)
  qed
qed

lemma erase_contents:
  assumes "shape b" "pos < sz b"
  shows "contents (fst (erase pos b)) = take pos (contents b) @ drop (Suc pos) (contents b)"
    "snd (erase pos b) = pos" "shape (fst (erase pos b))"
proof -
  let ?xs = "contents b"
  show "snd (erase pos b) = pos" by (simp add: erase_def Let_def)
  show "shape (fst (erase pos b))"
  proof (cases "int pos - int (begin_cb b) < int (end_cb b) - int pos")
    case True
    from insert_down_contents [OF assms(1) _ assms(2), of 0]
    have "shape (fst (insert_down b pos 0))" "sz (fst (insert_down b pos 0)) = sz b" by simp_all
    then show ?thesis
      using True assms(2) by (simp add: erase_def Let_def erase_down_eq pop_front_contents(2))
  next
    case False
    from insert_up_contents [OF assms(1), of pos "sz b - 1"] assms(2)
    have "shape (fst (insert_up b pos (sz b - 1)))"
      "sz (fst (insert_up b pos (sz b - 1))) = sz b" by simp_all
    then show ?thesis
      using False assms(2) by (simp add: erase_def Let_def erase_up_eq pop_back_contents(2))
  qed
  show "contents (fst (erase pos b)) = take pos ?xs @ drop (Suc pos) ?xs"
  proof (cases "int pos - int (begin_cb b) < int (end_cb b) - int pos")
    case True
    let ?r = "fst (insert_down b pos 0)"
    from insert_down_contents [OF assms(1) _ assms(2), of 0]
    have r: "shape ?r" "sz ?r = sz b"
      "\<And>k. k < sz b \<Longrightarrow> contents ?r ! k
         = (if 0 < k \<and> k \<le> pos then ?xs ! (k - 1) else if k = 0 then ?xs ! pos else ?xs ! k)"
      by simp_all
    have "contents (fst (erase pos b)) = tl (contents ?r)"
      using True r(1,2) assms(2)
      by (simp add: erase_def Let_def erase_down_eq pop_front_contents(1))
    also have "\<dots> = take pos ?xs @ drop (Suc pos) ?xs"
    proof (rule nth_equalityI)
      show "length (tl (contents ?r)) = length (take pos ?xs @ drop (Suc pos) ?xs)"
        using assms(2) r(2) by (simp add: length_contents)
    next
      fix k
      assume "k < length (tl (contents ?r))"
      then have k: "k + 1 < sz b" using r(2) by (simp add: length_contents)
      have "tl (contents ?r) ! k = contents ?r ! (k + 1)"
        using k r(2) by (simp add: nth_tl length_contents)
      also have "\<dots> = (if k + 1 \<le> pos then ?xs ! k else ?xs ! (k + 1))"
        using r(3) [OF k] by simp
      also have "\<dots> = (take pos ?xs @ drop (Suc pos) ?xs) ! k"
        using k assms(2) by (auto simp: nth_append length_contents min_def)
      finally show "tl (contents ?r) ! k = (take pos ?xs @ drop (Suc pos) ?xs) ! k" .
    qed
    finally show ?thesis .
  next
    case False
    let ?r = "fst (insert_up b pos (sz b - 1))"
    from insert_up_contents [OF assms(1), of pos "sz b - 1"] assms(2)
    have r: "shape ?r" "sz ?r = sz b"
      "\<And>k. k < sz b \<Longrightarrow> contents ?r ! k
         = (if pos \<le> k \<and> k < sz b - 1 then ?xs ! (k + 1)
            else if k = sz b - 1 then ?xs ! pos else ?xs ! k)"
      by simp_all
    have "contents (fst (erase pos b)) = butlast (contents ?r)"
      using False r(1,2) assms(2)
      by (simp add: erase_def Let_def erase_up_eq pop_back_contents(1))
    also have "\<dots> = take pos ?xs @ drop (Suc pos) ?xs"
    proof (rule nth_equalityI)
      show "length (butlast (contents ?r)) = length (take pos ?xs @ drop (Suc pos) ?xs)"
        using assms(2) r(2) by (simp add: length_contents)
    next
      fix k
      assume "k < length (butlast (contents ?r))"
      then have k: "k < sz b - 1" using r(2) by (simp add: length_contents)
      then have k': "k < sz b" by simp
      have "butlast (contents ?r) ! k = contents ?r ! k"
        using k r(2) by (simp add: nth_butlast length_contents)
      also have "\<dots> = (if pos \<le> k then ?xs ! (k + 1) else ?xs ! k)"
        using r(3) [OF k'] k by simp
      also have "\<dots> = (take pos ?xs @ drop (Suc pos) ?xs) ! k"
        using k assms(2) by (auto simp: nth_append length_contents min_def)
      finally show "butlast (contents ?r) ! k = (take pos ?xs @ drop (Suc pos) ?xs) ! k" .
    qed
    finally show ?thesis .
  qed
qed


lemma pop_back_funpow:
  "shape b \<Longrightarrow> n \<le> sz b \<Longrightarrow>
   shape ((pop_back ^^ n) b) \<and> sz ((pop_back ^^ n) b) = sz b - n \<and>
   contents ((pop_back ^^ n) b) = take (sz b - n) (contents b)"
proof (induction n)
  case 0
  then show ?case by (simp add: length_contents)
next
  case (Suc n)
  let ?r = "(pop_back ^^ n) b"
  from Suc have ih: "shape ?r" "sz ?r = sz b - n" "contents ?r = take (sz b - n) (contents b)"
    by simp_all
  have pos: "0 < sz ?r" using Suc.prems ih(2) by simp
  note pb = pop_back_contents [OF ih(1) pos]
  have "butlast (take (sz b - n) (contents b)) = take (sz b - Suc n) (contents b)"
    by (simp add: butlast_take length_contents)
  then show ?case
    using pb ih by (simp add: sz_pop_back)
qed

lemma pop_front_funpow:
  "shape b \<Longrightarrow> n \<le> sz b \<Longrightarrow>
   shape ((pop_front ^^ n) b) \<and> sz ((pop_front ^^ n) b) = sz b - n \<and>
   contents ((pop_front ^^ n) b) = drop n (contents b)"
proof (induction n)
  case 0
  then show ?case by simp
next
  case (Suc n)
  let ?r = "(pop_front ^^ n) b"
  from Suc have ih: "shape ?r" "sz ?r = sz b - n" "contents ?r = drop n (contents b)"
    by simp_all
  have pos: "0 < sz ?r" using Suc.prems ih(2) by simp
  note pf = pop_front_contents [OF ih(1) pos]
  have "tl (drop n (contents b)) = drop (Suc n) (contents b)"
    by (simp add: drop_Suc tl_drop)
  then show ?case
    using pf ih by (simp add: sz_pop_front)
qed

lemma erase_range_up_contents:
  "shape b \<Longrightarrow> begin_2 \<le> begin_1 \<Longrightarrow> begin_1 \<le> sz b \<Longrightarrow>
   shape (erase_range_up b begin_1 begin_2) \<and>
   sz (erase_range_up b begin_1 begin_2) = sz b \<and>
   (\<forall>k. k < begin_2 + (sz b - begin_1) \<longrightarrow>
      contents (erase_range_up b begin_1 begin_2) ! k
        = (if k < begin_2 then contents b ! k else contents b ! (k + (begin_1 - begin_2))))"
proof (induction b begin_1 begin_2 rule: erase_range_up.induct)
  case (1 b begin_1 begin_2)
  show ?case
  proof (cases "begin_1 < sz b")
    case False
    then have "erase_range_up b begin_1 begin_2 = b"
      by (subst erase_range_up.simps) (simp add: end_cb_def)
    then show ?thesis using False "1.prems" by simp
  next
    case True
    let ?b' = "swap_at begin_1 begin_2 b"
    let ?xs = "contents b"
    have c2: "begin_2 < sz b" using True "1.prems" by simp
    note sw = swap_at_contents [OF "1.prems"(1) True c2]
    have unf: "erase_range_up b begin_1 begin_2
                 = erase_range_up ?b' (Suc begin_1) (Suc begin_2)"
      using True by (subst erase_range_up.simps) (simp add: end_cb_def)
    have ih: "shape (erase_range_up ?b' (Suc begin_1) (Suc begin_2))"
      "sz (erase_range_up ?b' (Suc begin_1) (Suc begin_2)) = sz b"
      "\<And>k. k < Suc begin_2 + (sz b - Suc begin_1) \<Longrightarrow>
         contents (erase_range_up ?b' (Suc begin_1) (Suc begin_2)) ! k
           = (if k < Suc begin_2 then contents ?b' ! k
              else contents ?b' ! (k + (begin_1 - begin_2)))"
      using "1.IH" [OF _ sw(2)] True "1.prems" sw(3) by (simp_all add: end_cb_def)
    have nth: "contents (erase_range_up ?b' (Suc begin_1) (Suc begin_2)) ! k
                 = (if k < begin_2 then ?xs ! k else ?xs ! (k + (begin_1 - begin_2)))"
      if k: "k < begin_2 + (sz b - begin_1)" for k
    proof -
      have "k < Suc begin_2 + (sz b - Suc begin_1)" using k True by simp
      then have "contents (erase_range_up ?b' (Suc begin_1) (Suc begin_2)) ! k
           = (if k < Suc begin_2 then contents ?b' ! k
              else contents ?b' ! (k + (begin_1 - begin_2)))"
        by (rule ih(3))
      also have "\<dots> = (if k < begin_2 then ?xs ! k else ?xs ! (k + (begin_1 - begin_2)))"
      proof (cases "k = begin_2")
        case True
        then have "k + (begin_1 - begin_2) = begin_1" using "1.prems"(2) by simp
        then show ?thesis
          using True \<open>begin_1 < sz b\<close> c2 sw(1)
          by (simp add: length_contents nth_list_update)
      next
        case False
        then show ?thesis
          using \<open>begin_1 < sz b\<close> c2 k "1.prems"(2) sw(1)
          by (auto simp: length_contents nth_list_update)
      qed
      finally show ?thesis .
    qed
    show ?thesis
      using ih(1,2) nth unf by simp
  qed
qed

lemma erase_range_contents:
  assumes "shape b" "first_index \<le> last_index" "last_index \<le> sz b"
    "first_index = 0 \<or> \<not> int first_index - int (begin_cb b) < int (end_cb b) - int last_index"
  shows "contents (fst (erase_range first_index last_index b))
           = take first_index (contents b) @ drop last_index (contents b)"
    "snd (erase_range first_index last_index b) = first_index"
    "shape (fst (erase_range first_index last_index b))"
proof -
  let ?xs = "contents b"
  let ?n = "last_index - first_index"
  show "snd (erase_range first_index last_index b) = first_index"
    by (simp add: erase_range_def Let_def)
  show "contents (fst (erase_range first_index last_index b))
           = take first_index ?xs @ drop last_index ?xs
        " "shape (fst (erase_range first_index last_index b))"
  proof -
    consider (fr) "int first_index - int (begin_cb b) < int (end_cb b) - int last_index"
        "first_index = 0"
      | (bk_end) "\<not> int first_index - int (begin_cb b) < int (end_cb b) - int last_index"
        "last_index = sz b"
      | (bk) "\<not> int first_index - int (begin_cb b) < int (end_cb b) - int last_index"
        "last_index \<noteq> sz b"
      using assms(4) by blast
    then have "contents (fst (erase_range first_index last_index b))
           = take first_index ?xs @ drop last_index ?xs \<and>
           shape (fst (erase_range first_index last_index b))"
    proof cases
      case fr
      then have "fst (erase_range first_index last_index b) = (pop_front ^^ last_index) b"
        by (simp add: erase_range_def Let_def begin_cb_def)
      then show ?thesis
        using pop_front_funpow [OF assms(1,3)] fr(2) by simp
    next
      case bk_end
      then have "fst (erase_range first_index last_index b) = (pop_back ^^ ?n) b"
        by (simp add: erase_range_def Let_def end_cb_def)
      moreover have "?n \<le> sz b" using assms(3) by simp
      ultimately show ?thesis
        using pop_back_funpow [OF assms(1), of ?n] bk_end(2) assms(2)
        by (simp add: length_contents)
    next
      case bk
      let ?r = "erase_range_up b last_index first_index"
      from erase_range_up_contents [OF assms(1,2,3)]
      have r: "shape ?r" "sz ?r = sz b"
        "\<And>k. k < first_index + (sz b - last_index) \<Longrightarrow>
           contents ?r ! k = (if k < first_index then ?xs ! k else ?xs ! (k + ?n))"
        by simp_all
      have e: "fst (erase_range first_index last_index b) = (pop_back ^^ ?n) ?r"
        using bk by (simp add: erase_range_def Let_def end_cb_def)
      have n: "?n \<le> sz ?r" using assms(3) r(2) by simp
      from pop_back_funpow [OF r(1) n]
      have p: "shape ((pop_back ^^ ?n) ?r)"
        "contents ((pop_back ^^ ?n) ?r) = take (sz b - ?n) (contents ?r)"
        using r(2) by simp_all
      have "take (sz b - ?n) (contents ?r) = take first_index ?xs @ drop last_index ?xs"
      proof (rule nth_equalityI)
        show "length (take (sz b - ?n) (contents ?r))
                = length (take first_index ?xs @ drop last_index ?xs)"
          using assms(2,3) r(2) by (simp add: length_contents)
      next
        fix k
        assume "k < length (take (sz b - ?n) (contents ?r))"
        then have k: "k < sz b - ?n" using r(2) by (simp add: length_contents)
        then have k': "k < first_index + (sz b - last_index)" using assms(2,3) by simp
        have "take (sz b - ?n) (contents ?r) ! k = contents ?r ! k"
          using k by simp
        also have "\<dots> = (if k < first_index then ?xs ! k else ?xs ! (k + ?n))"
          by (rule r(3) [OF k'])
        also have "\<dots> = (take first_index ?xs @ drop last_index ?xs) ! k"
          using k assms(2,3)
          by (auto simp: nth_append length_contents min_def add.commute)
        finally show "take (sz b - ?n) (contents ?r) ! k
            = (take first_index ?xs @ drop last_index ?xs) ! k" .
      qed
      then show ?thesis using e p by simp
    qed
    then show "contents (fst (erase_range first_index last_index b))
           = take first_index ?xs @ drop last_index ?xs
        " "shape (fst (erase_range first_index last_index b))"
      by simp_all
  qed
qed

lemma insert_branch:
  "insert_cb pos v b =
     (if pos < sz b - pos then insert_up (push_front v b) 0 pos
      else insert_down (push_back v b) (sz b) pos)"
proof -
  have "(int pos - int (begin_cb b) < int (end_cb b) - int pos) = (pos < sz b - pos)"
    by (auto simp: begin_cb_def end_cb_def)
  then show ?thesis
    by (simp add: insert_cb_def Let_def begin_cb_def end_cb_def sz_push_back)
qed

lemma insert_contents:
  assumes "shape b" "pos \<le> sz b" "push_back_sound b"
  shows "contents (fst (insert_cb pos v b)) = take pos (contents b) @ Some v # drop pos (contents b)"
    "snd (insert_cb pos v b) = pos" "shape (fst (insert_cb pos v b))"
proof -
  have s: "sz b = 0 \<longrightarrow> head (ensure_cap b) = 0"
    using assms(3) by (simp add: push_back_sound_def empty_cb_def)
  have "contents (fst (insert_cb pos v b)) = take pos (contents b) @ Some v # drop pos (contents b)
        \<and> snd (insert_cb pos v b) = pos \<and> shape (fst (insert_cb pos v b))"
  proof (cases "int pos - int (begin_cb b) < int (end_cb b) - int pos")
    case True
    from insert_front_branch [OF assms(1,2) True] show ?thesis by simp
  next
    case False
    from insert_back_branch [OF assms(1,2) False s] show ?thesis by simp
  qed
  then show "contents (fst (insert_cb pos v b))
               = take pos (contents b) @ Some v # drop pos (contents b)"
    "snd (insert_cb pos v b) = pos" "shape (fst (insert_cb pos v b))"
    by simp_all
qed

text \<open>
  Claim C4 (\<^verbatim>\<open>insert\<close> places the value at the designated logical index) fails on the
  code for an empty buffer whose \<open>head\<close> is not 0: \<^verbatim>\<open>insert(begin(), 2)\<close> after
  \<^verbatim>\<open>push_back(1); pop_front()\<close> takes the \<^verbatim>\<open>push_back\<close> branch, the value lands in
  slot 0 and the sequence read back is the one destroyed slot 1, not \<open>[2]\<close>.
\<close>

theorem insert_failing:
  "contents (fst (insert_cb 0 2 (pop_front (push_back (1::nat) circular_buffer_init))))
     = [None] \<and>
   fst (insert_cb 0 2 (pop_front (push_back (1::nat) circular_buffer_init)))
     = \<lparr>head = 1, sz = 1, cap = 3, arr = [Some 2, None, None]\<rparr>"
  by code_simp

text \<open>
  Claim C1 (\<^verbatim>\<open>erase(first, last)\<close> removes exactly the range) fails on the code in the
  front branch: on \<open>[1, 2, 3, 4]\<close>, \<^verbatim>\<open>erase(begin() + 1, begin() + 2)\<close> should leave
  \<open>[1, 3, 4]\<close>. The loop that moves the elements before \<open>first\<close> across the gap stops
  at \<^verbatim>\<open>end_1 > begin()\<close> and never moves the element of index 0, which is then popped:
  the result is \<open>[2, 3, 4]\<close>.
\<close>

theorem erase_range_failing:
  "contents (fold push_back [1, 2, 3, 4 :: nat] circular_buffer_init)
     = [Some 1, Some 2, Some 3, Some 4] \<and>
   contents (fst (erase_range 1 2 (fold push_back [1, 2, 3, 4 :: nat] circular_buffer_init)))
     = [Some 2, Some 3, Some 4]"
  by code_simp

section \<open>The reference deque\<close>

text \<open>
  On a sound run that never pops an empty buffer, the buffer started from a state that
  holds the elements \<open>xs\<close> shows after every prefix of the run the front, back and size
  of the reference deque started from \<open>xs\<close>. A run without \<^verbatim>\<open>push_back\<close> is sound
  from every state: \<^verbatim>\<open>push_front\<close> with \<^verbatim>\<open>pop_back\<close> is a reversed FIFO queue.
\<close>

lemma buffer_obs_deque:
  assumes "shape b" "contents b = map Some xs"
  shows "buffer_obs b = deque_obs xs"
proof (cases "sz b = 0")
  case True
  then have "xs = []" using assms(2) length_contents [of b] by simp
  then show ?thesis using True by (simp add: buffer_obs_def deque_obs_def empty_cb_def)
next
  case False
  then have pos: "0 < sz b" by simp
  note s = shape_pos [OF assms(1) pos]
  have len: "length xs = sz b" using assms(2) length_contents [of b] by (metis length_map)
  then have ne: "xs \<noteq> []" using pos by auto
  have "front b = at_cb b 0" using s by (simp add: front_def at_cb_def)
  also have "\<dots> = contents b ! 0" using pos by (simp add: nth_contents)
  also have "\<dots> = Some (hd xs)" using ne by (simp add: assms(2) hd_conv_nth)
  finally have f: "front b = Some (hd xs)" .
  have "back_cb b = at_cb b (sz b - 1)"
    by (simp add: back_cb_def at_cb_def tail_slot [OF assms(1) pos])
  also have "\<dots> = contents b ! (sz b - 1)" using pos by (simp add: nth_contents)
  also have "\<dots> = Some (last xs)" using ne len pos by (simp add: assms(2) last_conv_nth)
  finally have l: "back_cb b = Some (last xs)" .
  show ?thesis
    using False ne f l len by (simp add: buffer_obs_def deque_obs_def empty_cb_def size_cb_def)
qed

lemma apply_op_deque:
  assumes "shape b" "contents b = map Some xs" "admissible [x] (sz b)" "sound_run [x] b"
  shows "shape (apply_op x b)" "contents (apply_op x b) = map Some (deque_apply x xs)"
proof -
  have "shape (apply_op x b) \<and> contents (apply_op x b) = map Some (deque_apply x xs)"
  proof (cases x)
    case (PushBack v)
    then have "sz b = 0 \<longrightarrow> head (ensure_cap b) = 0"
      using assms(4) by (simp add: push_back_sound_def empty_cb_def)
    from push_back_contents [OF assms(1) this, of v] show ?thesis
      using PushBack assms(2) by simp
  next
    case (PushFront v)
    from push_front_contents [OF assms(1), of v] show ?thesis
      using PushFront assms(2) by simp
  next
    case PopBack
    then have "0 < sz b" using assms(3) by simp
    from pop_back_contents [OF assms(1) this] show ?thesis
      using PopBack assms(2) by (simp add: map_butlast)
  next
    case PopFront
    then have "0 < sz b" using assms(3) by simp
    from pop_front_contents [OF assms(1) this] show ?thesis
      using PopFront assms(2) by (simp add: map_tl)
  qed
  then show "shape (apply_op x b)" "contents (apply_op x b) = map Some (deque_apply x xs)"
    by simp_all
qed

lemma sz_apply_op:
  "admissible (x # ops) (sz b) \<Longrightarrow> admissible ops (sz (apply_op x b))"
  by (cases x) (simp_all add: sz_push_back sz_push_front sz_pop_back sz_pop_front)

lemma sound_run_Cons: "sound_run (x # ops) b \<Longrightarrow> sound_run [x] b \<and> sound_run ops (apply_op x b)"
  by (cases x) simp_all

lemma admissible_Cons: "admissible (x # ops) n \<Longrightarrow> admissible [x] n"
  by (cases x) simp_all

lemma run_deque:
  "shape b \<Longrightarrow> contents b = map Some xs \<Longrightarrow> admissible ops (sz b) \<Longrightarrow> sound_run ops b \<Longrightarrow>
   shape (fold apply_op ops b) \<and>
   contents (fold apply_op ops b) = map Some (fold deque_apply ops xs)"
proof (induction ops arbitrary: b xs)
  case Nil
  then show ?case by simp
next
  case (Cons x ops)
  note s = sound_run_Cons [OF Cons.prems(4)]
  note a = admissible_Cons [OF Cons.prems(3)]
  note st = apply_op_deque [OF Cons.prems(1,2) a s [THEN conjunct1]]
  from Cons.IH [OF st sz_apply_op [OF Cons.prems(3)] s [THEN conjunct2]]
  show ?case by simp
qed

lemma admissible_take: "admissible ops n \<Longrightarrow> admissible (take m ops) n"
proof (induction ops n arbitrary: m rule: admissible.induct)
  case (1 n)
  then show ?case by simp
next
  case (2 v ops n)
  then show ?case by (cases m) simp_all
next
  case (3 v ops n)
  then show ?case by (cases m) simp_all
next
  case (4 ops n)
  then show ?case by (cases m) simp_all
next
  case (5 ops n)
  then show ?case by (cases m) simp_all
qed

lemma sound_run_take: "sound_run ops b \<Longrightarrow> sound_run (take m ops) b"
proof (induction ops arbitrary: b m)
  case Nil
  then show ?case by simp
next
  case (Cons x ops)
  show ?case
  proof (cases m)
    case 0
    then show ?thesis by simp
  next
    case (Suc j)
    from Cons.IH [OF sound_run_Cons [OF Cons.prems, THEN conjunct2], of j]
    show ?thesis
      using Suc sound_run_Cons [OF Cons.prems, THEN conjunct1] by (cases x) simp_all
  qed
qed

lemma sound_run_no_push_back:
  "\<forall>v. PushBack v \<notin> set ops \<Longrightarrow> sound_run ops b"
proof (induction ops arbitrary: b)
  case Nil
  then show ?case by simp
next
  case (Cons y ops)
  then show ?case by (cases y) auto
qed

lemma deque_step_by_step:
  assumes "shape b" "contents b = map Some xs" "admissible ops (sz b)" "sound_run ops b"
  shows "buffer_obs (fold apply_op (take m ops) b) = deque_obs (fold deque_apply (take m ops) xs)"
proof -
  from run_deque [OF assms(1,2) admissible_take [OF assms(3), of m] sound_run_take [OF assms(4), of m]]
  show ?thesis by (simp add: buffer_obs_deque)
qed

text \<open>
  Claim C6 (the buffer matches a reference double-ended queue step by step) fails on the
  code. After \<^verbatim>\<open>push_back(1); pop_front(); push_back(2)\<close> on a default-constructed
  buffer the reference queue is \<open>[2]\<close>, with front 2, while the buffer has \<open>head = 1\<close>
  and its only element in slot 0: \<^verbatim>\<open>push_back\<close> on an empty buffer constructs at
  \<^verbatim>\<open>arr\<close> whatever \<open>head\<close> is, so \<^verbatim>\<open>front()\<close> and \<^verbatim>\<open>back()\<close> designate the destroyed
  slot 1.
\<close>

theorem fifo_failing:
  "fold apply_op [PushBack 1, PopFront, PushBack 2] circular_buffer_init
     = \<lparr>head = 1, sz = 1, cap = 3, arr = [Some (2::nat), None, None]\<rparr> \<and>
   buffer_obs (fold apply_op [PushBack 1, PopFront, PushBack (2::nat)] circular_buffer_init)
     = (None, None, 1) \<and>
   deque_obs (fold deque_apply [PushBack 1, PopFront, PushBack (2::nat)] [])
     = (Some 2, Some 2, 1)"
  by code_simp

section \<open>The state invariant\<close>

text \<open>
  A state is well formed exactly if it has the shape of a state between two calls and
  the logical indices below the size, and no others, designate slots that hold an
  object. Every operation keeps a well-formed state well formed, except \<^verbatim>\<open>push_back\<close>
  (and \<^verbatim>\<open>insert\<close> through it) on an empty buffer whose \<open>head\<close> is not 0.
\<close>

lemma slot_surj:
  fixes h c p :: nat
  assumes "h < c" "p < c"
  shows "\<exists>k < c. p = (h + k) mod c"
proof (intro exI conjI)
  show "(p + c - h) mod c < c" using assms by simp
  have "(h + (p + c - h) mod c) mod c = (h + (p + c - h)) mod c"
    by (rule mod_add_right_eq)
  also have "h + (p + c - h) = p + c" using assms by simp
  also have "(p + c) mod c = p" using assms by simp
  finally show "p = (h + (p + c - h) mod c) mod c" by simp
qed

lemma wf_iff:
  "wf b \<longleftrightarrow> shape b \<and> (\<forall>k < cap b. (at_cb b k \<noteq> None) = (k < sz b))"
proof (cases "cap b = 0")
  case True
  then show ?thesis by (auto simp: wf_def invariant_def shape_def)
next
  case False
  show ?thesis
  proof (cases "shape b")
    case False
    then show ?thesis by (simp add: wf_def)
  next
    case True
    from True \<open>cap b \<noteq> 0\<close> have c: "0 < cap b" "sz b < cap b" "head b < cap b"
      by (simp_all add: shape_def)
    have inj: "((head b + k) mod cap b = (head b + i) mod cap b) = (k = i)"
      if "k < cap b" "i < cap b" for k i
      using mod_add_inj [OF that] by blast
    have run: "(\<exists>i \<in> {0 ..< sz b}. (head b + k) mod cap b = (head b + i) mod cap b) = (k < sz b)"
      if k: "k < cap b" for k
    proof
      assume "\<exists>i \<in> {0 ..< sz b}. (head b + k) mod cap b = (head b + i) mod cap b"
      then obtain i where i: "i < sz b" "(head b + k) mod cap b = (head b + i) mod cap b"
        by auto
      then have "k = i" using inj [OF k] c(2) by simp
      then show "k < sz b" using i by simp
    next
      assume "k < sz b"
      then show "\<exists>i \<in> {0 ..< sz b}. (head b + k) mod cap b = (head b + i) mod cap b"
        by auto
    qed
    show ?thesis
    proof
      assume "wf b"
      then have i: "\<And>p. p < cap b \<Longrightarrow>
          (arr b ! p \<noteq> None) = (\<exists>i \<in> {0 ..< sz b}. p = (head b + i) mod cap b)"
        by (simp add: wf_def invariant_def)
      have "(at_cb b k \<noteq> None) = (k < sz b)" if k: "k < cap b" for k
      proof -
        have "(head b + k) mod cap b < cap b" using c by simp
        from i [OF this] show ?thesis using run [OF k] by (simp add: at_cb_def)
      qed
      then show "shape b \<and> (\<forall>k < cap b. (at_cb b k \<noteq> None) = (k < sz b))"
        using True by simp
    next
      assume a: "shape b \<and> (\<forall>k < cap b. (at_cb b k \<noteq> None) = (k < sz b))"
      have "(arr b ! p \<noteq> None) = (\<exists>i \<in> {0 ..< sz b}. p = (head b + i) mod cap b)"
        if p: "p < cap b" for p
      proof -
        from slot_surj [OF c(3) p] obtain k where k: "k < cap b" "p = (head b + k) mod cap b"
          by blast
        have "(arr b ! p \<noteq> None) = (at_cb b k \<noteq> None)" using k by (simp add: at_cb_def)
        also have "\<dots> = (k < sz b)" using a k by simp
        also have "\<dots> = (\<exists>i \<in> {0 ..< sz b}. p = (head b + i) mod cap b)"
          using run [OF k(1)] k(2) by simp
        finally show ?thesis .
      qed
      then show "wf b" using True c by (simp add: wf_def invariant_def)
    qed
  qed
qed

lemma wfI:
  assumes "shape b" "\<And>k. k < cap b \<Longrightarrow> (at_cb b k \<noteq> None) = (k < sz b)"
  shows "wf b"
  using assms by (simp add: wf_iff)

lemma wf_at: "wf b \<Longrightarrow> k < cap b \<Longrightarrow> (at_cb b k \<noteq> None) = (k < sz b)"
  by (simp add: wf_iff)

lemma wf_shape: "wf b \<Longrightarrow> shape b"
  by (simp add: wf_def)

text \<open>
  The shape is kept by every operation at either end, also by a \<^verbatim>\<open>push_back\<close> that
  breaks the invariant: every state reached from a default-constructed buffer by pushes
  and pops that never pop an empty buffer has it.
\<close>

lemma shape_init: "shape circular_buffer_init"
  by (simp add: shape_def circular_buffer_init_def)

lemma shape_push_back:
  assumes "shape b"
  shows "shape (push_back v b)"
proof -
  let ?b1 = "ensure_cap b"
  note e = ensure_cap_props [OF assms]
  have room: "sz ?b1 + 1 < cap ?b1" using e(4) by (simp only: e(3))
  then have cpos: "cap ?b1 \<noteq> 0" by simp
  have hc: "head ?b1 < cap ?b1" and len: "length (arr ?b1) = cap ?b1"
    using e(1) cpos by (simp_all add: shape_def)
  show ?thesis
    using room hc len by (simp add: push_back_def Let_def shape_def)
qed

lemma shape_apply_op:
  assumes "shape b" "admissible [x] (sz b)"
  shows "shape (apply_op x b)"
proof (cases x)
  case (PushBack v)
  then show ?thesis using shape_push_back [OF assms(1)] by simp
next
  case (PushFront v)
  have "0 < cap (ensure_cap b)" using ensure_cap_props(4) [OF assms(1)] by simp
  from push_front_at(2) [OF assms(1) this] show ?thesis using PushFront by simp
next
  case PopBack
  then have "0 < sz b" using assms(2) by simp
  from pop_back_contents(2) [OF assms(1) this] show ?thesis using PopBack by simp
next
  case PopFront
  then have "0 < sz b" using assms(2) by simp
  from pop_front_contents(2) [OF assms(1) this] show ?thesis using PopFront by simp
qed

lemma shape_run:
  "shape b \<Longrightarrow> admissible ops (sz b) \<Longrightarrow> shape (fold apply_op ops b)"
proof (induction ops arbitrary: b)
  case Nil
  then show ?case by simp
next
  case (Cons x ops)
  note a = admissible_Cons [OF Cons.prems(2)]
  have "shape (apply_op x b)" by (rule shape_apply_op [OF Cons.prems(1) a])
  from Cons.IH [OF this sz_apply_op [OF Cons.prems(2)]] show ?case by simp
qed

lemma wf_init: "wf circular_buffer_init"
  by (simp add: wf_def shape_def invariant_def circular_buffer_init_def)

lemma wf_increase_cap: "wf b \<Longrightarrow> wf (increase_cap n b)"
  by (simp add: wf_def shape_increase_cap invariant_increase_cap)

lemma wf_ensure_cap: "wf b \<Longrightarrow> wf (ensure_cap b)"
  by (simp add: ensure_cap_def wf_increase_cap)

lemma wf_reserve: "wf b \<Longrightarrow> wf (reserve n b)"
  by (simp add: reserve_def wf_increase_cap)

lemma wf_pop_front:
  assumes "wf b" "0 < sz b"
  shows "wf (pop_front b)"
proof (rule wfI)
  note s = wf_shape [OF assms(1)]
  note p = shape_pos [OF s assms(2)]
  show "shape (pop_front b)" by (rule pop_front_contents(2) [OF s assms(2)])
  fix k
  assume "k < cap (pop_front b)"
  then have k: "k < cap b" by (simp add: cap_pop_front)
  show "(at_cb (pop_front b) k \<noteq> None) = (k < sz (pop_front b))"
  proof (cases "k + 1 < cap b")
    case True
    then show ?thesis
      using pop_front_at [OF s assms(2) k] wf_at [OF assms(1) True]
      by (auto simp: sz_pop_front)
  next
    case False
    then show ?thesis
      using pop_front_at [OF s assms(2) k] p(2) by (simp add: sz_pop_front)
  qed
qed

lemma wf_pop_back:
  assumes "wf b" "0 < sz b"
  shows "wf (pop_back b)"
proof (rule wfI)
  note s = wf_shape [OF assms(1)]
  show "shape (pop_back b)" by (rule pop_back_contents(2) [OF s assms(2)])
  fix k
  assume "k < cap (pop_back b)"
  then have k: "k < cap b" by (simp add: cap_pop_back)
  show "(at_cb (pop_back b) k \<noteq> None) = (k < sz (pop_back b))"
    using pop_back_at [OF s assms(2) k] wf_at [OF assms(1) k] assms(2)
    by (auto simp: sz_pop_back)
qed

lemma wf_push_front:
  assumes "wf b"
  shows "wf (push_front v b)"
proof (rule wfI)
  note s = wf_shape [OF assms]
  note w1 = wf_ensure_cap [OF assms]
  note e = ensure_cap_props [OF s]
  have z: "0 < cap (ensure_cap b)" using e(4) by simp
  show "shape (push_front v b)" by (rule push_front_at(2) [OF s z])
  fix k
  assume "k < cap (push_front v b)"
  then have k: "k < cap (ensure_cap b)" by (simp add: cap_push_front)
  then have k1: "k - 1 < cap (ensure_cap b)" by simp
  show "(at_cb (push_front v b) k \<noteq> None) = (k < sz (push_front v b))"
    using push_front_at(1) [OF s k, of v] wf_at [OF w1 k] wf_at [OF w1 k1]
    by (auto simp: sz_push_front e(3))
qed

lemma wf_push_back:
  assumes "wf b" "sz b = 0 \<longrightarrow> head (ensure_cap b) = 0"
  shows "wf (push_back v b)"
proof (rule wfI)
  note s = wf_shape [OF assms(1)]
  note w1 = wf_ensure_cap [OF assms(1)]
  note e = ensure_cap_props [OF s]
  have z: "0 < cap (ensure_cap b)" using e(4) by simp
  show "shape (push_back v b)" by (rule push_back_at(2) [OF s assms(2) z])
  fix k
  assume "k < cap (push_back v b)"
  then have k: "k < cap (ensure_cap b)" by (simp add: cap_push_back)
  show "(at_cb (push_back v b) k \<noteq> None) = (k < sz (push_back v b))"
    using push_back_at(1) [OF s assms(2) k, of v] wf_at [OF w1 k]
    by (auto simp: sz_push_back e(3))
qed

lemma wf_swap_at:
  assumes "wf b" "p < sz b" "q < sz b"
  shows "wf (swap_at p q b)"
proof (rule wfI)
  note s = wf_shape [OF assms(1)]
  have pos: "0 < sz b" using assms(2) by simp
  note sp = shape_pos [OF s pos]
  show "shape (swap_at p q b)" by (rule swap_at_contents(2) [OF s assms(2,3)])
  fix k
  assume "k < cap (swap_at p q b)"
  then have k: "k < cap b" by (simp add: swap_at_def)
  have pc: "p < cap b" "q < cap b" using assms(2,3) sp(2) by simp_all
  show "(at_cb (swap_at p q b) k \<noteq> None) = (k < sz (swap_at p q b))"
    using swap_at_at [OF s assms(2,3) k] wf_at [OF assms(1) k]
      wf_at [OF assms(1) pc(1)] wf_at [OF assms(1) pc(2)] assms(2,3)
    by (auto simp: swap_at_def)
qed

lemma wf_clear:
  assumes "wf b"
  shows "wf (clear b)"
proof -
  note s = wf_shape [OF assms]
  have len: "length (arr (clear b)) = cap b"
    using s by (simp add: clear_def length_arr_fold_destroy_at shape_def)
  have raw: "arr (clear b) ! p = None" if "p < cap b" for p
    using clear_all_raw [OF assms] that len by (metis nth_mem singletonD subsetD)
  have "shape (clear b)"
    using s len by (auto simp: shape_def cap_clear sz_clear head_clear split: if_splits)
  moreover have "invariant (clear b)"
    using raw s by (auto simp: invariant_def cap_clear sz_clear shape_def split: if_splits)
  ultimately show ?thesis by (simp add: wf_def)
qed


lemma insert_up_wf:
  "wf b \<Longrightarrow> cur \<le> pos \<Longrightarrow> pos < sz b \<Longrightarrow> wf (fst (insert_up b cur pos))"
proof (induction b cur pos rule: insert_up.induct)
  case (1 b cur pos)
  show ?case
  proof (cases "cur < pos")
    case False
    then show ?thesis using "1.prems" by (subst insert_up.simps) simp
  next
    case True
    have "wf (swap_at cur (cur + 1) b)"
      using True "1.prems" by (intro wf_swap_at) simp_all
    from "1.IH" [OF True this] show ?thesis
      using True "1.prems" by (subst insert_up.simps) (simp add: sz_swap_at)
  qed
qed

lemma insert_down_wf:
  "wf b \<Longrightarrow> pos \<le> cur \<Longrightarrow> cur < sz b \<Longrightarrow> wf (fst (insert_down b cur pos))"
proof (induction b cur pos rule: insert_down.induct)
  case (1 b cur pos)
  show ?case
  proof (cases "cur > pos")
    case False
    then show ?thesis using "1.prems" by (subst insert_down.simps) simp
  next
    case True
    have "wf (swap_at cur (cur - 1) b)"
      using True "1.prems" by (intro wf_swap_at) simp_all
    from "1.IH" [OF True this] show ?thesis
      using True "1.prems" by (subst insert_down.simps) (simp add: sz_swap_at)
  qed
qed

lemma erase_range_up_wf:
  "wf b \<Longrightarrow> begin_2 \<le> begin_1 \<Longrightarrow> begin_1 \<le> sz b \<Longrightarrow>
   wf (erase_range_up b begin_1 begin_2) \<and> sz (erase_range_up b begin_1 begin_2) = sz b"
proof (induction b begin_1 begin_2 rule: erase_range_up.induct)
  case (1 b begin_1 begin_2)
  show ?case
  proof (cases "begin_1 < sz b")
    case False
    then show ?thesis using "1.prems" by (subst (1 2) erase_range_up.simps) (simp add: end_cb_def)
  next
    case True
    have "wf (swap_at begin_1 begin_2 b)"
      using True "1.prems" by (intro wf_swap_at) simp_all
    from "1.IH" [OF _ this] show ?thesis
      using True "1.prems"
      by (subst (1 2) erase_range_up.simps) (simp add: sz_swap_at end_cb_def)
  qed
qed

lemma erase_range_down_wf:
  "wf b \<Longrightarrow> end_1 \<le> end_2 \<Longrightarrow> end_2 < sz b \<Longrightarrow>
   wf (erase_range_down b end_1 end_2) \<and> sz (erase_range_down b end_1 end_2) = sz b"
proof (induction b end_1 end_2 rule: erase_range_down.induct)
  case (1 b end_1 end_2)
  show ?case
  proof (cases "end_1 > 0")
    case False
    then show ?thesis
      using "1.prems" by (subst (1 2) erase_range_down.simps) (simp add: begin_cb_def)
  next
    case True
    have "wf (swap_at end_1 end_2 b)"
      using True "1.prems" by (intro wf_swap_at) simp_all
    from "1.IH" [OF _ this] show ?thesis
      using True "1.prems"
      by (subst (1 2) erase_range_down.simps) (simp add: sz_swap_at begin_cb_def)
  qed
qed

lemma wf_pop_front_funpow:
  "wf b \<Longrightarrow> n \<le> sz b \<Longrightarrow> wf ((pop_front ^^ n) b) \<and> sz ((pop_front ^^ n) b) = sz b - n"
proof (induction n)
  case 0
  then show ?case by simp
next
  case (Suc n)
  then have ih: "wf ((pop_front ^^ n) b)" "sz ((pop_front ^^ n) b) = sz b - n" by simp_all
  have "0 < sz ((pop_front ^^ n) b)" using Suc.prems ih(2) by simp
  from wf_pop_front [OF ih(1) this] show ?case
    using ih(2) by (simp add: sz_pop_front)
qed

lemma wf_pop_back_funpow:
  "wf b \<Longrightarrow> n \<le> sz b \<Longrightarrow> wf ((pop_back ^^ n) b) \<and> sz ((pop_back ^^ n) b) = sz b - n"
proof (induction n)
  case 0
  then show ?case by simp
next
  case (Suc n)
  then have ih: "wf ((pop_back ^^ n) b)" "sz ((pop_back ^^ n) b) = sz b - n" by simp_all
  have "0 < sz ((pop_back ^^ n) b)" using Suc.prems ih(2) by simp
  from wf_pop_back [OF ih(1) this] show ?case
    using ih(2) by (simp add: sz_pop_back)
qed

lemma wf_insert:
  assumes "wf b" "pos \<le> sz b" "push_back_sound b"
  shows "wf (fst (insert_cb pos v b))"
proof (cases "int pos - int (begin_cb b) < int (end_cb b) - int pos")
  case True
  have "wf (fst (insert_up (push_front v b) 0 pos))"
    using assms(2) by (intro insert_up_wf wf_push_front [OF assms(1)]) (simp_all add: sz_push_front)
  then show ?thesis using True by (simp add: insert_cb_def Let_def begin_cb_def)
next
  case False
  have "sz b = 0 \<longrightarrow> head (ensure_cap b) = 0"
    using assms(3) by (simp add: push_back_sound_def empty_cb_def)
  then have "wf (fst (insert_down (push_back v b) (sz b) pos))"
    using assms(2) by (intro insert_down_wf wf_push_back [OF assms(1)]) (simp_all add: sz_push_back)
  then show ?thesis using False by (simp add: insert_cb_def Let_def end_cb_def sz_push_back)
qed

lemma wf_erase:
  assumes "wf b" "pos < sz b"
  shows "wf (fst (erase pos b))"
proof (cases "int pos - int (begin_cb b) < int (end_cb b) - int pos")
  case True
  let ?r = "fst (insert_down b pos 0)"
  have w: "wf ?r" using assms by (intro insert_down_wf) simp_all
  have "sz ?r = sz b"
    using insert_down_contents [OF wf_shape [OF assms(1)] _ assms(2), of 0] by simp
  then have "wf (pop_front ?r)" using w assms(2) by (intro wf_pop_front) simp_all
  then show ?thesis using True by (simp add: erase_def Let_def erase_down_eq)
next
  case False
  let ?r = "fst (insert_up b pos (sz b - 1))"
  have w: "wf ?r" using assms by (intro insert_up_wf) simp_all
  have "sz ?r = sz b"
    using insert_up_contents [OF wf_shape [OF assms(1)], of pos "sz b - 1"] assms(2) by simp
  then have "wf (pop_back ?r)" using w assms(2) by (intro wf_pop_back) simp_all
  then show ?thesis using False by (simp add: erase_def Let_def erase_up_eq)
qed

lemma wf_erase_range:
  assumes "wf b" "first_index \<le> last_index" "last_index \<le> sz b"
  shows "wf (fst (erase_range first_index last_index b))"
proof (cases "int first_index - int (begin_cb b) < int (end_cb b) - int last_index")
  case True
  let ?b1 = "if first_index > begin_cb b
             then erase_range_down b (first_index - 1) (last_index - 1) else b"
  have "wf ?b1 \<and> sz ?b1 = sz b"
  proof (cases "first_index > begin_cb b")
    case False
    then show ?thesis using assms(1) by simp
  next
    case gt: True
    then have "first_index - 1 \<le> last_index - 1" "last_index - 1 < sz b"
      using assms(2,3) True by (simp_all add: begin_cb_def end_cb_def)
    from erase_range_down_wf [OF assms(1) this] show ?thesis using gt by simp
  qed
  then have "wf ((pop_front ^^ (last_index - first_index)) ?b1)"
    using assms(3) wf_pop_front_funpow [of ?b1 "last_index - first_index"] by simp
  then show ?thesis using True by (simp add: erase_range_def Let_def)
next
  case False
  let ?b1 = "if last_index \<noteq> end_cb b
             then erase_range_up b last_index first_index else b"
  have "wf ?b1 \<and> sz ?b1 = sz b"
    using erase_range_up_wf [OF assms] assms(1) by simp
  then have "wf ((pop_back ^^ (last_index - first_index)) ?b1)"
    using assms(3) wf_pop_back_funpow [of ?b1 "last_index - first_index"] by simp
  then show ?thesis using False by (simp add: erase_range_def Let_def)
qed

lemma wf_apply_op:
  assumes "wf b" "admissible [x] (sz b)" "sound_run [x] b"
  shows "wf (apply_op x b)"
proof (cases x)
  case (PushBack v)
  then have "sz b = 0 \<longrightarrow> head (ensure_cap b) = 0"
    using assms(3) by (simp add: push_back_sound_def empty_cb_def)
  from wf_push_back [OF assms(1) this] show ?thesis using PushBack by simp
next
  case (PushFront v)
  then show ?thesis using wf_push_front [OF assms(1)] by simp
next
  case PopBack
  then show ?thesis using wf_pop_back [OF assms(1)] assms(2) by simp
next
  case PopFront
  then show ?thesis using wf_pop_front [OF assms(1)] assms(2) by simp
qed

lemma wf_run:
  "wf b \<Longrightarrow> admissible ops (sz b) \<Longrightarrow> sound_run ops b \<Longrightarrow> wf (fold apply_op ops b)"
proof (induction ops arbitrary: b)
  case Nil
  then show ?case by simp
next
  case (Cons x ops)
  note s = sound_run_Cons [OF Cons.prems(3)]
  note a = admissible_Cons [OF Cons.prems(2)]
  from Cons.IH [OF wf_apply_op [OF Cons.prems(1) a s [THEN conjunct1]]
      sz_apply_op [OF Cons.prems(2)] s [THEN conjunct2]]
  show ?case by simp
qed

lemma head_push_back: "head (push_back v b) = head (ensure_cap b)"
  by (simp add: push_back_def Let_def)

lemma wf_fold_push_back:
  "wf b \<Longrightarrow> head b = 0 \<Longrightarrow>
   wf (fold (\<lambda>x. push_back (f x)) xs b) \<and> head (fold (\<lambda>x. push_back (f x)) xs b) = 0"
proof (induction xs arbitrary: b)
  case Nil
  then show ?case by simp
next
  case (Cons x xs)
  have h: "head (ensure_cap b) = 0" using Cons.prems(2) by (simp add: head_ensure_cap)
  then have "wf (push_back (f x) b)" by (intro wf_push_back Cons.prems(1)) simp
  moreover have "head (push_back (f x) b) = 0" using h by (simp add: head_push_back)
  ultimately show ?case using Cons.IH by simp
qed

lemma wf_copy: "wf (circular_buffer_copy other)"
proof -
  have "wf (reserve (size_cb other) (circular_buffer_init :: 'a circular_buffer))"
    by (intro wf_reserve wf_init)
  moreover have "head (reserve (size_cb other) (circular_buffer_init :: 'a circular_buffer)) = 0"
    by (simp add: reserve_def increase_cap_grow circular_buffer_init_def)
  ultimately show ?thesis
    using wf_fold_push_back [of _ "\<lambda>it. the (deref other it)"]
    by (simp add: circular_buffer_copy_def)
qed

text \<open>
  Claim C7 (every public operation preserves the state invariant) fails on the code at
  the same place: the state after \<^verbatim>\<open>push_back(1); pop_front()\<close> satisfies the invariant
  (it is empty, with \<open>head = 1\<close>), and \<^verbatim>\<open>push_back(2)\<close> leads to a state whose live slot
  is slot 0 while the invariant asks for slot \<open>head = 1\<close>.
\<close>

theorem invariant_failing:
  "invariant (pop_front (push_back (1::nat) circular_buffer_init)) \<and>
   \<not> invariant (push_back 2 (pop_front (push_back (1::nat) circular_buffer_init)))"
  by code_simp

theorem invariant_failing_witness:
  "(let b = push_back 2 (pop_front (push_back (1::nat) circular_buffer_init)) in
      0 < cap b \<and> sz b < cap b \<and> 0 \<in> {0 ..< cap b} \<and> arr b ! 0 \<noteq> None \<and>
      0 \<in> {0 ..< sz b} \<and> (head b + 0) mod cap b = 1 \<and> arr b ! 1 = None \<and>
      \<not> invariant b)"
proof -
  have "push_back 2 (pop_front (push_back (1::nat) circular_buffer_init))
          = \<lparr>head = 1, sz = 1, cap = 3, arr = [Some 2, None, None]\<rparr>"
    by code_simp
  then show ?thesis
    using invariant_failing by (simp add: Let_def)
qed

end
